theory Spec2Isabelle
  imports Complex_Main "HOL-Library.Word" "HOL-Library.Signed_Division"
begin

section \<open>The reliable message writer of m3 (package src/msg/producer/writer)\<close>

text \<open>
  Go's \<open>int64\<close>, \<open>uint64\<close> and \<open>time.Duration\<close> are 64-bit words: \<open>+\<close> and \<open>-\<close> wrap,
  signed comparisons are \<open>\<le>s\<close> and \<open><s\<close>. Counts held in Go's \<open>int\<close> (the write count
  of a message, the batch size, the iteration counter) are \<open>int\<close>: none of them is
  computed by an operation that can leave the 64-bit range in a run of the writer.
  The static retry function is a public function of the package, and its \<open>writeTimes - 1\<close>
  leaves the range at the smallest \<open>int\<close>: there the wrap-around is written out.
\<close>

type_synonym int64 = "64 word"
type_synonym uint64 = "64 word"
type_synonym uint32 = "32 word"

datatype error = errInvalidBackoffDuration | errFailAllConsumers | errNoWriters

datatype panic = IndexOutOfRange | CloseOfClosedChannel

subsection \<open>Retry scheduler: the static table\<close>

text \<open>
  The closure returned by \<open>StaticRetryNanosFn\<close>. A slice read at a negative index or at
  an index beyond the length is a run-time panic in Go. The argument \<open>writeTimes\<close> is a
  Go \<open>int\<close>, 64 bits wide, so that it is at most \<open>2^63 - 1\<close> and \<open>writeTimes - 1\<close> can
  leave the 64-bit range only downwards: at the smallest \<open>int\<close>, \<open>- 2^63\<close>, the difference
  wraps around by \<open>2^64\<close> to the largest \<open>int\<close>, \<open>2^63 - 1\<close>.
\<close>

definition sliceIndex :: "'a list \<Rightarrow> int \<Rightarrow> panic + 'a" where
  "sliceIndex xs i = (if 0 \<le> i \<and> i < int (length xs) then Inr (xs ! nat i) else Inl IndexOutOfRange)"

definition staticRetryNanos :: "int64 list \<Rightarrow> int \<Rightarrow> panic + int64" where
  "staticRetryNanos backoffInt64s writeTimes =
     (let retry = (if writeTimes - 1 < - (2 ^ 63) then writeTimes - 1 + 2 ^ 64
                   else writeTimes - 1);
          l = int (length backoffInt64s)
      in if retry < l then sliceIndex backoffInt64s retry
         else sliceIndex backoffInt64s (l - 1))"

definition StaticRetryNanosFn :: "int64 list \<Rightarrow> error + (int \<Rightarrow> panic + int64)" where
  "StaticRetryNanosFn backoffDurations =
     (if length backoffDurations = 0 then Inl errInvalidBackoffDuration
      else Inr (staticRetryNanos (map (\<lambda>b. b) backoffDurations)))"

subsection \<open>Retry scheduler: exponential backoff with jitter\<close>

text \<open>
  Modelled from the spec: the retry options (package x/retry is not part of the sources);
  only the four getters that \<open>NextRetryNanosFn\<close> reads. A finite \<open>float64\<close> is modelled
  by the real number it denotes.
\<close>

record retryOptions =
  Jitter :: bool
  BackoffFactor :: real
  InitialBackoff :: int64
  MaxBackoff :: int64

text \<open>
  The floating-point unit and the random source are parameters of the model:
  \<open>roundF\<close> rounds an exact real result to \<open>float64\<close>, \<open>powF\<close> is \<open>math.Pow\<close>,
  \<open>convOverflow\<close> is the implementation-dependent result of converting a \<open>float64\<close>
  outside the \<open>int64\<close> range, and \<open>fastrandn\<close> is \<open>unsafe.Fastrandn\<close>.
\<close>

record float64Unit =
  roundF :: "real \<Rightarrow> real"
  powF :: "real \<Rightarrow> real \<Rightarrow> real"
  convOverflow :: "real \<Rightarrow> int64"

definition float64_of_int :: "float64Unit \<Rightarrow> int \<Rightarrow> real" where
  "float64_of_int fu i = roundF fu (real_of_int i)"

definition float64_mul :: "float64Unit \<Rightarrow> real \<Rightarrow> real \<Rightarrow> real" where
  "float64_mul fu a b = roundF fu (a * b)"

definition int64_of_float64 :: "float64Unit \<Rightarrow> real \<Rightarrow> int64" where
  "int64_of_float64 fu r =
     (let t = (if 0 \<le> r then \<lfloor>r\<rfloor> else \<lceil>r\<rceil>)
      in if - (2 ^ 63) \<le> t \<and> t < 2 ^ 63 then word_of_int t else convOverflow fu r)"

text \<open>Go's \<open>/\<close> on \<open>int64\<close> truncates towards zero.\<close>

definition int64_div :: "int64 \<Rightarrow> int64 \<Rightarrow> int64" where
  "int64_div a b = word_of_int (sint a sdiv sint b)"

definition Microsecond :: int64 where
  "Microsecond = 1000"

definition MaxUint32 :: int64 where
  "MaxUint32 = 4294967295"

text \<open>
  The local \<open>backoffFloat64\<close> of the closure, computed when write-times is at least 1:
  \<open>initialBackoffFloat * math.Pow(backoffFactor, float64(writeTimes-1))\<close>, where
  \<open>initialBackoffFloat\<close> is \<open>float64(initialBackoff)\<close>.
\<close>

definition backoffFloat64 :: "float64Unit \<Rightarrow> retryOptions \<Rightarrow> int \<Rightarrow> real" where
  "backoffFloat64 fu retryOpts writeTimes =
     float64_mul fu (float64_of_int fu (sint (InitialBackoff retryOpts)))
       (powF fu (BackoffFactor retryOpts) (float64_of_int fu (writeTimes - 1)))"

definition NextRetryNanosFn ::
  "float64Unit \<Rightarrow> (uint32 \<Rightarrow> uint32) \<Rightarrow> retryOptions \<Rightarrow> int \<Rightarrow> int64" where
  "NextRetryNanosFn fu fastrandn retryOpts writeTimes =
     (let jitter = Jitter retryOpts;
          initialBackoff = InitialBackoff retryOpts;
          maxBackoff = MaxBackoff retryOpts;
          backoff0 = (if writeTimes \<ge> 1
                      then int64_of_float64 fu (backoffFloat64 fu retryOpts writeTimes)
                      else initialBackoff);
          halfInMicros = int64_div (int64_div backoff0 2) Microsecond;
          backoff1 = (if jitter \<and> 2 \<le>s backoff0 \<and> halfInMicros <s MaxUint32
                      then let jitterInMicros = fastrandn (ucast halfInMicros);
                               jitterInNanos = (ucast jitterInMicros :: int64) * Microsecond;
                               halfInNanos = halfInMicros * Microsecond
                           in halfInNanos + jitterInNanos
                      else backoff0)
      in if maxBackoff <s backoff1 then maxBackoff else backoff1)"

text \<open>
  Two concrete instances of the parameters, for evaluating the scheduler on inputs where
  every \<open>float64\<close> operation is exact: a unit that never rounds (its overflow result is
  the one of amd64), and the multiply-shift reduction of a raw 32-bit random value \<open>r\<close>
  into \<open>[0, n)\<close>.
\<close>

definition exactFloat64 :: float64Unit where
  "exactFloat64 = \<lparr>roundF = (\<lambda>r. r), powF = (\<lambda>x y. x ^ nat \<lfloor>y\<rfloor>), convOverflow = (\<lambda>r. - (2 ^ 63))\<rparr>"

definition fastrandnOf :: "uint32 \<Rightarrow> uint32 \<Rightarrow> uint32" where
  "fastrandnOf r n = ucast (drop_bit 32 ((ucast r :: uint64) * (ucast n :: uint64)))"

definition retryOpts10ms :: "bool \<Rightarrow> retryOptions" where
  "retryOpts10ms j = \<lparr>Jitter = j, BackoffFactor = 2, InitialBackoff = 10000000, MaxBackoff = 60000000000\<rparr>"

subsection \<open>Messages, payloads and the pool\<close>

type_synonym addr = nat

record metadata =
  shard :: uint64
  id' :: uint64

text \<open>
  Modelled from the spec: the producer-owned reference-counted payload
  (\<open>producer.RefCountedMessage\<close>, not part of the sources); the writer only takes a
  reference, gives it back when the envelope is closed, and asks whether the payload was
  dropped or consumed.
\<close>

record refCountedMessage =
  refCount :: int
  droppedOrConsumed :: bool

text \<open>
  Modelled from the spec: the message envelope (message.go is not part of the sources),
  with the attributes of the spec's data model that the writer reads or writes:
  metadata, payload reference, init-nanos (expected-process-at-nanos is equal to it),
  retry-at-nanos (initially 0), write-times (a count of send attempts) and the ack flag.
\<close>

record message =
  meta :: metadata
  payload :: "addr option"
  initNanos :: int64
  retryAtNanos :: int64
  writeTimes :: nat
  isAcked :: bool

text \<open>
  Modelled from the spec: the methods of the envelope (message.go), each reading or
  writing the attribute of its name; \<open>newMessage\<close> is the empty envelope, \<open>Ack\<close> of the
  envelope sets the ack flag.
\<close>

definition newMessage :: message where
  "newMessage = \<lparr>meta = \<lparr>shard = 0, id' = 0\<rparr>, payload = None, initNanos = 0,
                  retryAtNanos = 0, writeTimes = 0, isAcked = False\<rparr>"

definition Set :: "metadata \<Rightarrow> addr \<Rightarrow> int64 \<Rightarrow> message \<Rightarrow> message" where
  "Set mt rm nowNanos m = m\<lparr>meta := mt, payload := Some rm, initNanos := nowNanos\<rparr>"

definition Metadata :: "message \<Rightarrow> metadata" where
  "Metadata m = meta m"

definition InitNanos :: "message \<Rightarrow> int64" where
  "InitNanos m = initNanos m"

definition ExpectedProcessAtNanos :: "message \<Rightarrow> int64" where
  "ExpectedProcessAtNanos m = initNanos m"

definition RetryAtNanos :: "message \<Rightarrow> int64" where
  "RetryAtNanos m = retryAtNanos m"

definition SetRetryAtNanos :: "int64 \<Rightarrow> message \<Rightarrow> message" where
  "SetRetryAtNanos v m = m\<lparr>retryAtNanos := v\<rparr>"

definition WriteTimes :: "message \<Rightarrow> int" where
  "WriteTimes m = int (writeTimes m)"

definition IncWriteTimes :: "message \<Rightarrow> message" where
  "IncWriteTimes m = m\<lparr>writeTimes := writeTimes m + 1\<rparr>"

definition IsAcked :: "message \<Rightarrow> bool" where
  "IsAcked m = isAcked m"

definition Ack_message :: "message \<Rightarrow> message" where
  "Ack_message m = m\<lparr>isAcked := True\<rparr>"

text \<open>
  Modelled from the spec: the message pool (not part of the sources). \<open>Get\<close> hands out
  an empty envelope and \<open>Put\<close> takes one back. An envelope is reset when it is closed,
  so a recycled envelope cannot be told from a new one: \<open>Get\<close> always returns the next
  unused address, and the returned envelopes are only recorded.
\<close>

record messagePool =
  nextFree :: addr
  returned :: "addr list"

subsection \<open>The writer\<close>

text \<open>
  Modelled from the spec: the options the writer reads (options.go is not part of the
  sources).
\<close>

record Options =
  IgnoreCutoffCutover :: bool
  MessageQueueScanBatchSize :: int
  MessageQueueFullScanInterval :: int64
  MessageRetryNanosFn :: "int \<Rightarrow> panic + int64"

text \<open>
  History counters, not part of the program: the number of \<open>Write\<close> calls that passed
  admission, the number of \<open>acks.ack\<close> calls that returned true, and the number of
  entries that \<open>acks.remove\<close> deleted.
\<close>

record history =
  admittedWrites :: nat
  ackTransitions :: nat
  dropRemovals :: nat

text \<open>
  The struct \<open>messageWriter\<close>, together with the memory its pointers refer to: \<open>heap\<close>
  holds the envelopes, \<open>payloads\<close> the producer's payloads. The queue is the list of the
  envelopes' addresses from front to back, a list element being identified with the
  envelope it carries; the ack table maps a message id to an envelope's address.
  \<open>nextFullScan\<close> is \<open>None\<close> for the zero time. \<open>doneCh\<close> tells whether the channel has
  been closed, \<open>wg\<close> is the wait group's counter. Locks, the encoder, the connections
  and the emitted metrics are not part of the state.
\<close>

record messageWriter =
  replicatedShardID :: uint64
  mPool :: messagePool
  opts :: Options
  nextRetryAfterNanos :: "int \<Rightarrow> panic + int64"
  msgID :: uint64
  queue :: "addr list"
  consumerWriters :: "string list"
  iterationIndexes :: "int list"
  acks :: "uint64 \<rightharpoonup> addr"
  cutOffNanos :: int64
  cutOverNanos :: int64
  messageTTLNanos :: int64
  msgsToWrite :: "addr list"
  isClosed :: bool
  doneCh :: bool
  wg :: nat
  nextFullScan :: "int64 option"
  lastNewWrite :: "addr option"
  heap :: "addr \<Rightarrow> message"
  payloads :: "addr \<Rightarrow> refCountedMessage"
  hist :: history

definition newMessageWriter :: "uint64 \<Rightarrow> Options \<Rightarrow> messageWriter" where
  "newMessageWriter replicatedShardID' opts' =
     \<lparr>replicatedShardID = replicatedShardID',
      mPool = \<lparr>nextFree = 0, returned = []\<rparr>,
      opts = opts',
      nextRetryAfterNanos = MessageRetryNanosFn opts',
      msgID = 0,
      queue = [],
      consumerWriters = [],
      iterationIndexes = [],
      acks = Map.empty,
      cutOffNanos = 0,
      cutOverNanos = 0,
      messageTTLNanos = 0,
      msgsToWrite = [],
      isClosed = False,
      doneCh = False,
      wg = 0,
      nextFullScan = None,
      lastNewWrite = None,
      heap = (\<lambda>a. newMessage),
      payloads = (\<lambda>p. \<lparr>refCount = 0, droppedOrConsumed = False\<rparr>),
      hist = \<lparr>admittedWrites = 0, ackTransitions = 0, dropRemovals = 0\<rparr>\<rparr>"

subsubsection \<open>Pool, payload and envelope operations on the memory\<close>

text \<open>
  Modelled from the spec: \<open>Get\<close> and \<open>Put\<close> of the message pool, and \<open>IncRef\<close> and
  \<open>DecRef\<close> of a payload, as operations on the memory.
\<close>

definition mPool_Get :: "messageWriter \<Rightarrow> addr \<times> messageWriter" where
  "mPool_Get w =
     (let a = nextFree (mPool w)
      in (a, w\<lparr>mPool := (mPool w)\<lparr>nextFree := a + 1\<rparr>, heap := (heap w)(a := newMessage)\<rparr>))"

definition mPool_Put :: "messageWriter \<Rightarrow> addr \<Rightarrow> messageWriter" where
  "mPool_Put w a = w\<lparr>mPool := (mPool w)\<lparr>returned := a # returned (mPool w)\<rparr>\<rparr>"

definition IncRef :: "messageWriter \<Rightarrow> addr \<Rightarrow> messageWriter" where
  "IncRef w rm = w\<lparr>payloads := (payloads w)(rm := (payloads w rm)\<lparr>refCount := refCount (payloads w rm) + 1\<rparr>)\<rparr>"

definition DecRef :: "messageWriter \<Rightarrow> addr \<Rightarrow> messageWriter" where
  "DecRef w rm = w\<lparr>payloads := (payloads w)(rm := (payloads w rm)\<lparr>refCount := refCount (payloads w rm) - 1\<rparr>)\<rparr>"

text \<open>
  Modelled from the spec: closing an envelope gives the payload reference back, if it
  holds one, and resets the envelope.
\<close>

definition Close_message :: "messageWriter \<Rightarrow> addr \<Rightarrow> messageWriter" where
  "Close_message w a =
     (let w1 = (case payload (heap w a) of None \<Rightarrow> w | Some rm \<Rightarrow> DecRef w rm)
      in w1\<lparr>heap := (heap w1)(a := newMessage)\<rparr>)"

text \<open>
  Modelled from the spec: the validity probe of the payload. An envelope in the queue
  always carries a payload; an envelope without one counts as not dropped.
\<close>

definition IsDroppedOrConsumed :: "messageWriter \<Rightarrow> message \<Rightarrow> bool" where
  "IsDroppedOrConsumed w m =
     (case payload m of None \<Rightarrow> False | Some rm \<Rightarrow> droppedOrConsumed (payloads w rm))"

definition newMessage_writer :: "messageWriter \<Rightarrow> addr \<times> messageWriter" where
  "newMessage_writer w = mPool_Get w"

definition close :: "messageWriter \<Rightarrow> addr \<Rightarrow> messageWriter" where
  "close w m = mPool_Put (Close_message w m) m"

subsubsection \<open>The ack table\<close>

definition acks_add :: "messageWriter \<Rightarrow> metadata \<Rightarrow> addr \<Rightarrow> messageWriter" where
  "acks_add w mt m = w\<lparr>acks := (acks w)(id' mt \<mapsto> m)\<rparr>"

definition acks_remove :: "messageWriter \<Rightarrow> metadata \<Rightarrow> messageWriter" where
  "acks_remove w mt =
     (case acks w (id' mt) of
        None \<Rightarrow> w
      | Some m \<Rightarrow> w\<lparr>acks := (acks w)(id' mt := None),
                      hist := (hist w)\<lparr>dropRemovals := dropRemovals (hist w) + 1\<rparr>\<rparr>)"

definition acks_ack :: "messageWriter \<Rightarrow> metadata \<Rightarrow> (bool \<times> int64) \<times> messageWriter" where
  "acks_ack w mt =
     (case acks w (id' mt) of
        None \<Rightarrow> ((False, 0), w)
      | Some m \<Rightarrow>
          (let expectedProcessAtNanos = ExpectedProcessAtNanos (heap w m)
           in ((True, expectedProcessAtNanos),
               w\<lparr>acks := (acks w)(id' mt := None),
                 heap := (heap w)(m := Ack_message (heap w m)),
                 hist := (hist w)\<lparr>ackTransitions := ackTransitions (hist w) + 1\<rparr>\<rparr>)))"

definition acks_size :: "messageWriter \<Rightarrow> nat" where
  "acks_size w = card (dom (acks w))"

subsubsection \<open>The linked list\<close>

definition Front :: "addr list \<Rightarrow> addr option" where
  "Front q = (case q of [] \<Rightarrow> None | x # _ \<Rightarrow> Some x)"

fun insertAfter :: "addr \<Rightarrow> addr \<Rightarrow> addr list \<Rightarrow> addr list" where
  "insertAfter v mark [] = []"
| "insertAfter v mark (x # xs) = (if x = mark then x # v # xs else x # insertAfter v mark xs)"

text \<open>\<open>InsertAfter\<close> of container/list: nothing is inserted, and nil is returned, when
  the mark is not an element of the list.\<close>

definition InsertAfter :: "addr list \<Rightarrow> addr \<Rightarrow> addr \<Rightarrow> addr list \<times> addr option" where
  "InsertAfter q v mark = (if mark \<in> set q then (insertAfter v mark q, Some v) else (q, None))"

definition PushFront :: "addr list \<Rightarrow> addr \<Rightarrow> addr list \<times> addr option" where
  "PushFront q v = (v # q, Some v)"

definition Remove :: "addr list \<Rightarrow> addr \<Rightarrow> addr list" where
  "Remove q e = remove1 e q"

subsubsection \<open>Write and Ack\<close>

definition isValidWriteWithLock :: "messageWriter \<Rightarrow> int64 \<Rightarrow> bool" where
  "isValidWriteWithLock w nowNanos =
     (if IgnoreCutoffCutover (opts w) then True
      else if 0 <s cutOffNanos w \<and> cutOffNanos w \<le>s nowNanos then False
      else if 0 <s cutOverNanos w \<and> nowNanos <s cutOverNanos w then False
      else True)"

definition Write :: "messageWriter \<Rightarrow> addr \<Rightarrow> int64 \<Rightarrow> messageWriter" where
  "Write w rm nowNanos =
     (case newMessage_writer w of (msg, w0) \<Rightarrow>
        if \<not> isValidWriteWithLock w0 nowNanos then close w0 msg
        else
          (let w1 = IncRef w0 rm;
               w2 = w1\<lparr>msgID := msgID w1 + 1\<rparr>;
               mt = \<lparr>shard = replicatedShardID w2, id' = msgID w2\<rparr>;
               w3 = w2\<lparr>heap := (heap w2)(msg := Set mt rm nowNanos (heap w2 msg))\<rparr>;
               w4 = acks_add w3 mt msg;
               w5 = w4\<lparr>hist := (hist w4)\<lparr>admittedWrites := admittedWrites (hist w4) + 1\<rparr>\<rparr>
           in case lastNewWrite w5 of
                Some l \<Rightarrow> (case InsertAfter (queue w5) msg l of
                             (q, r) \<Rightarrow> w5\<lparr>queue := q, lastNewWrite := r\<rparr>)
              | None \<Rightarrow> (case PushFront (queue w5) msg of
                           (q, r) \<Rightarrow> w5\<lparr>queue := q, lastNewWrite := r\<rparr>)))"

definition Ack :: "messageWriter \<Rightarrow> metadata \<Rightarrow> bool \<times> messageWriter" where
  "Ack w mt =
     (case acks_ack w mt of
        ((acked, expectedProcessNanos), w') \<Rightarrow> if acked then (True, w') else (False, w'))"

definition QueueSize :: "messageWriter \<Rightarrow> nat" where
  "QueueSize w = acks_size w"

definition SetCutoffNanos :: "messageWriter \<Rightarrow> int64 \<Rightarrow> messageWriter" where
  "SetCutoffNanos w nanos = w\<lparr>cutOffNanos := nanos\<rparr>"

definition SetCutoverNanos :: "messageWriter \<Rightarrow> int64 \<Rightarrow> messageWriter" where
  "SetCutoverNanos w nanos = w\<lparr>cutOverNanos := nanos\<rparr>"

definition SetMessageTTLNanos :: "messageWriter \<Rightarrow> int64 \<Rightarrow> messageWriter" where
  "SetMessageTTLNanos w nanos = w\<lparr>messageTTLNanos := nanos\<rparr>"

definition AddConsumerWriter :: "messageWriter \<Rightarrow> string \<Rightarrow> messageWriter" where
  "AddConsumerWriter w cw =
     (let newConsumerWriters = consumerWriters w @ [cw]
      in w\<lparr>iterationIndexes := map int [0..<length newConsumerWriters],
            consumerWriters := newConsumerWriters\<rparr>)"

definition RemoveConsumerWriter :: "messageWriter \<Rightarrow> string \<Rightarrow> messageWriter" where
  "RemoveConsumerWriter w addr' =
     (let newConsumerWriters = filter (\<lambda>cw. cw \<noteq> addr') (consumerWriters w)
      in w\<lparr>iterationIndexes := map int [0..<length newConsumerWriters],
            consumerWriters := newConsumerWriters\<rparr>)"

subsubsection \<open>The scan loop\<close>

datatype metricIdx =
    idx_messageClosed
  | idx_messageDroppedBufferFull
  | idx_messageDroppedTTLExpire
  | idx_messageRetry
  | idx_processedAck
  | idx_processedClosed
  | idx_processedDrop
  | idx_processedNotReady
  | idx_processedTTL
  | idx_processedWrite

type_synonym scanBatchMetrics = "metricIdx \<Rightarrow> 32 word"

definition noMetrics :: scanBatchMetrics where
  "noMetrics = (\<lambda>i. 0)"

definition incr :: "metricIdx \<Rightarrow> scanBatchMetrics \<Rightarrow> scanBatchMetrics" where
  "incr i sm = sm(i := sm i + 1)"

definition removeFromQueueWithLock :: "messageWriter \<Rightarrow> addr \<Rightarrow> messageWriter" where
  "removeFromQueueWithLock w e = close (w\<lparr>queue := Remove (queue w) e\<rparr>) e"

text \<open>
  The body of the loop of \<open>scanBatchWithLock\<close> for the element \<open>e\<close>: the branches in
  the order of the source. \<open>Continue\<close> goes on with the next element, \<open>Break\<close> leaves
  the loop. A panic of the retry function ends the scan.
\<close>

datatype control = Continue | Break

definition scanElement ::
  "messageWriter \<Rightarrow> addr \<Rightarrow> int64 \<Rightarrow> bool \<Rightarrow> scanBatchMetrics
   \<Rightarrow> panic + control \<times> messageWriter \<times> scanBatchMetrics" where
  "scanElement w e nowNanos fullScan sm =
     (let m = heap w e in
      if isClosed w then
        (let sm1 = incr idx_processedClosed sm;
             w1 = snd (acks_ack w (Metadata m));
             w2 = removeFromQueueWithLock w1 e
         in Inr (Continue, w2, incr idx_messageClosed sm1))
      else if nowNanos \<le>s RetryAtNanos m then
        (let sm1 = incr idx_processedNotReady sm
         in if \<not> fullScan then Inr (Break, w, sm1) else Inr (Continue, w, sm1))
      else if 0 <s messageTTLNanos w \<and> InitNanos m + messageTTLNanos w \<le>s nowNanos then
        (let sm1 = incr idx_processedTTL sm
         in case acks_ack w (Metadata m) of
              ((acked, expectedProcessNanos), w1) \<Rightarrow>
                Inr (Continue, removeFromQueueWithLock w1 e,
                     if acked then incr idx_messageDroppedTTLExpire sm1 else sm1))
      else if IsAcked m then
        Inr (Continue, removeFromQueueWithLock w e, incr idx_processedAck sm)
      else if IsDroppedOrConsumed w m then
        (let sm1 = incr idx_processedDrop sm
         in if IsAcked m then Inr (Continue, w, sm1)
            else Inr (Continue, removeFromQueueWithLock (acks_remove w (Metadata m)) e,
                      incr idx_messageDroppedBufferFull sm1))
      else
        (let m1 = IncWriteTimes m;
             writeTimes' = WriteTimes m1
         in case nextRetryAfterNanos w writeTimes' of
              Inl p \<Rightarrow> Inl p
            | Inr backoff \<Rightarrow>
                (let m2 = SetRetryAtNanos (backoff + nowNanos) m1;
                     w1 = w\<lparr>heap := (heap w)(e := m2)\<rparr>;
                     sm1 = (if writeTimes' > 1 then incr idx_messageRetry sm else sm)
                 in Inr (Continue, w1\<lparr>msgsToWrite := msgsToWrite w1 @ [e]\<rparr>,
                         incr idx_processedWrite sm1))))"

text \<open>
  The loop of \<open>scanBatchWithLock\<close>: \<open>es\<close> are the elements from the current one to the
  back of the queue, \<open>iterated\<close> and \<open>next'\<close> are the loop's variables.
\<close>

fun scanLoop ::
  "int64 \<Rightarrow> int \<Rightarrow> bool \<Rightarrow> addr list \<Rightarrow> int \<Rightarrow> addr option \<Rightarrow> messageWriter \<Rightarrow> scanBatchMetrics
   \<Rightarrow> panic + addr option \<times> messageWriter \<times> scanBatchMetrics" where
  "scanLoop nowNanos batchSize fullScan [] iterated next' w sm = Inr (next', w, sm)"
| "scanLoop nowNanos batchSize fullScan (e # es) iterated next' w sm =
     (if iterated + 1 > batchSize then Inr (next', w, sm)
      else case scanElement w e nowNanos fullScan sm of
             Inl p \<Rightarrow> Inl p
           | Inr (Break, w', sm') \<Rightarrow> Inr (Front es, w', sm')
           | Inr (Continue, w', sm') \<Rightarrow>
               scanLoop nowNanos batchSize fullScan es (iterated + 1) (Front es) w' sm')"

text \<open>
  \<open>scanBatchWithLock\<close>. The start element is an element of the queue: only the scan
  takes elements out of the queue, and none beyond the one it has reached.
\<close>

definition scanBatchWithLock ::
  "messageWriter \<Rightarrow> addr option \<Rightarrow> int64 \<Rightarrow> int \<Rightarrow> bool \<Rightarrow> scanBatchMetrics
   \<Rightarrow> panic + addr option \<times> addr list \<times> messageWriter \<times> scanBatchMetrics" where
  "scanBatchWithLock w start nowNanos batchSize fullScan scanMetrics =
     (let w0 = w\<lparr>msgsToWrite := []\<rparr>;
          es = (case start of None \<Rightarrow> [] | Some a \<Rightarrow> dropWhile (\<lambda>x. x \<noteq> a) (queue w0))
      in case scanLoop nowNanos batchSize fullScan es 0 None w0 scanMetrics of
           Inl p \<Rightarrow> Inl p
         | Inr (next', w', sm') \<Rightarrow> Inr (next', msgsToWrite w', w', sm'))"

text \<open>
  \<open>writeBatch\<close>: the send of one message (\<open>messageWriter.write\<close>: encoder, consumer
  chooser and connection, all outside the writer) is the parameter \<open>write\<close>, which tells
  the error of a send, if any.
\<close>

fun writeAll :: "(addr \<Rightarrow> error option) \<Rightarrow> addr list \<Rightarrow> error option" where
  "writeAll write [] = None"
| "writeAll write (m # ms) = (case write m of Some err \<Rightarrow> Some err | None \<Rightarrow> writeAll write ms)"

definition writeBatch :: "(addr \<Rightarrow> error option) \<Rightarrow> string list \<Rightarrow> addr list \<Rightarrow> error option" where
  "writeBatch write consumerWriters' messages =
     (if length consumerWriters' = 0 then Some errNoWriters else writeAll write messages)"

text \<open>
  The loop of \<open>scanMessageQueue\<close> over the batches. \<open>clock k\<close> is the clock's reading
  after the \<open>k\<close>-th batch that was written. The recursion is on a bound of the number of
  batches; \<open>None\<close> says that the bound was too small.
\<close>

fun scanBatches ::
  "nat \<Rightarrow> (addr \<Rightarrow> error option) \<Rightarrow> (nat \<Rightarrow> int64) \<Rightarrow> bool \<Rightarrow> nat \<Rightarrow> addr option \<Rightarrow> int64 \<Rightarrow> bool
   \<Rightarrow> messageWriter \<Rightarrow> scanBatchMetrics \<Rightarrow> (panic + messageWriter \<times> scanBatchMetrics) option" where
  "scanBatches 0 write clock fullScan k e beforeBatchNanos skipWrites w sm =
     (if e = None then Some (Inr (w, sm)) else None)"
| "scanBatches (Suc n) write clock fullScan k e beforeBatchNanos skipWrites w sm =
     (if e = None then Some (Inr (w, sm))
      else case scanBatchWithLock w e beforeBatchNanos (MessageQueueScanBatchSize (opts w)) fullScan sm of
             Inl p \<Rightarrow> Some (Inl p)
           | Inr (e', msgsToWrite', w', sm') \<Rightarrow>
               if \<not> fullScan \<and> length msgsToWrite' = 0 then Some (Inr (w', sm'))
               else if skipWrites
               then scanBatches n write clock fullScan k e' beforeBatchNanos skipWrites w' sm'
               else scanBatches n write clock fullScan (Suc k) e' (clock k)
                      (writeBatch write (consumerWriters w') msgsToWrite' \<noteq> None) w' sm')"

definition scanMessageQueue ::
  "messageWriter \<Rightarrow> nat \<Rightarrow> (addr \<Rightarrow> error option) \<Rightarrow> int64 \<Rightarrow> (nat \<Rightarrow> int64) \<Rightarrow> int64
   \<Rightarrow> (panic + messageWriter \<times> scanBatchMetrics) option" where
  "scanMessageQueue w bound write beforeScan clock afterScan =
     (let e = Front (queue w);
          w1 = w\<lparr>lastNewWrite := None\<rparr>;
          fullScan = (isClosed w1 \<or>
                       (case nextFullScan w1 of None \<Rightarrow> True | Some t \<Rightarrow> t <s beforeScan))
      in case scanBatches bound write clock fullScan 0 e beforeScan False w1 noMetrics of
           None \<Rightarrow> None
         | Some (Inl p) \<Rightarrow> Some (Inl p)
         | Some (Inr (w2, sm)) \<Rightarrow>
             Some (Inr (if fullScan
                        then w2\<lparr>nextFullScan := Some (afterScan + MessageQueueFullScanInterval (opts w2))\<rparr>
                        else w2, sm)))"

subsubsection \<open>Init and Close\<close>

definition Init :: "messageWriter \<Rightarrow> messageWriter" where
  "Init w = w\<lparr>wg := wg w + 1\<rparr>"

definition isEmpty :: "messageWriter \<Rightarrow> bool" where
  "isEmpty w = (length (queue w) = 0)"

text \<open>
  \<open>waitUntilAllMessageRemoved\<close> polls \<open>isEmpty\<close>. What the rest of the process does to
  the writer between two polls is the parameter \<open>others\<close> (\<open>None\<close> when the process
  ends there); \<open>ticks\<close> bounds the number of polls after the first, and the result
  \<open>None\<close> says that the queue was not seen empty within the bound.
\<close>

fun waitUntilAllMessageRemoved ::
  "nat \<Rightarrow> (messageWriter \<Rightarrow> messageWriter option) \<Rightarrow> messageWriter \<Rightarrow> messageWriter option" where
  "waitUntilAllMessageRemoved 0 others w = (if isEmpty w then Some w else None)"
| "waitUntilAllMessageRemoved (Suc n) others w =
     (if isEmpty w then Some w
      else case others w of None \<Rightarrow> None | Some w' \<Rightarrow> waitUntilAllMessageRemoved n others w')"

text \<open>
  \<open>Close\<close>. Closing a channel that is closed already panics; \<open>wg.Wait\<close> returns when the
  worker, which leaves its loop on the closed channel, is done.
\<close>

definition Close ::
  "messageWriter \<Rightarrow> nat \<Rightarrow> (messageWriter \<Rightarrow> messageWriter option) \<Rightarrow> (panic + messageWriter) option" where
  "Close w ticks others =
     (if isClosed w then Some (Inr w)
      else case waitUntilAllMessageRemoved ticks others (w\<lparr>isClosed := True\<rparr>) of
             None \<Rightarrow> None
           | Some w1 \<Rightarrow>
               if doneCh w1 then Some (Inl CloseOfClosedChannel)
               else Some (Inr (w1\<lparr>doneCh := True, wg := 0\<rparr>)))"

text \<open>The worker started by \<open>Init\<close>, seen between two polls: one run of \<open>scanMessageQueue\<close>.\<close>

definition workerScan ::
  "(addr \<Rightarrow> error option) \<Rightarrow> int64 \<Rightarrow> (nat \<Rightarrow> int64) \<Rightarrow> int64 \<Rightarrow> messageWriter \<Rightarrow> messageWriter option" where
  "workerScan write beforeScan clock afterScan w =
     (case scanMessageQueue w (Suc (length (queue w))) write beforeScan clock afterScan of
        Some (Inr (w', sm)) \<Rightarrow> Some w'
      | _ \<Rightarrow> None)"

subsection \<open>Runs, and an example writer\<close>

text \<open>A sequence of \<open>Ack\<close> calls, with the result of each.\<close>

fun AckAll :: "messageWriter \<Rightarrow> metadata list \<Rightarrow> bool list \<times> messageWriter" where
  "AckAll w [] = ([], w)"
| "AckAll w (mt # mts) =
     (case Ack w mt of (r, w') \<Rightarrow> (case AckAll w' mts of (rs, w'') \<Rightarrow> (r # rs, w'')))"

text \<open>A sequence of \<open>Write\<close> calls, each with its payload and the clock's reading.\<close>

fun WriteAll :: "messageWriter \<Rightarrow> (addr \<times> int64) list \<Rightarrow> messageWriter" where
  "WriteAll w [] = w"
| "WriteAll w ((rm, nowNanos) # ws) = WriteAll (Write w rm nowNanos) ws"

text \<open>The ids of the messages in the queue, from the front.\<close>

definition queueIDs :: "messageWriter \<Rightarrow> uint64 list" where
  "queueIDs w = map (\<lambda>a. id' (Metadata (heap w a))) (queue w)"

text \<open>
  A writer for shard 7 with one replica, a batch size of 16 and the static backoff table
  of a single entry of 40 ns; \<open>nobody\<close> is a process in which nothing else runs, and
  \<open>sendOk\<close> a send that never fails.
\<close>

definition exampleOpts :: Options where
  "exampleOpts = \<lparr>IgnoreCutoffCutover = False, MessageQueueScanBatchSize = 16,
      MessageQueueFullScanInterval = 1000, MessageRetryNanosFn = staticRetryNanos [40]\<rparr>"

definition exampleWriter :: messageWriter where
  "exampleWriter = AddConsumerWriter (newMessageWriter 7 exampleOpts) ''replica-a''"

definition nobody :: "messageWriter \<Rightarrow> messageWriter option" where
  "nobody w = None"

definition sendOk :: "addr \<Rightarrow> error option" where
  "sendOk m = None"

definition closedWriter :: messageWriter where
  "closedWriter = exampleWriter\<lparr>isClosed := True, doneCh := True, wg := 0\<rparr>"

text \<open>The closed example writer, with a cutoff at 1000 ns.\<close>

definition cutoffWriter :: messageWriter where
  "cutoffWriter = SetCutoffNanos closedWriter 1000"

text \<open>The example writer after one \<open>Write\<close> at time 50, and two metadata for its shard.\<close>

definition ackedOnce :: messageWriter where
  "ackedOnce = Write exampleWriter 1 50"

definition meta1 :: metadata where
  "meta1 = \<lparr>shard = 7, id' = 1\<rparr>"

definition meta9 :: metadata where
  "meta9 = \<lparr>shard = 7, id' = 9\<rparr>"

text \<open>
  The example writer after a first scan at time 60, which sent the message and scheduled
  its retry at 100, and after a second send at time 101.
\<close>

definition sentWriter :: messageWriter where
  "sentWriter = ackedOnce\<lparr>msgsToWrite := [0],
      heap := (heap ackedOnce)(0 := (heap ackedOnce 0)\<lparr>retryAtNanos := 100, writeTimes := 1\<rparr>)\<rparr>"

definition retriedWriter :: messageWriter where
  "retriedWriter = sentWriter\<lparr>msgsToWrite := [0, 0],
      heap := (heap sentWriter)(0 := (heap sentWriter 0)\<lparr>retryAtNanos := 141, writeTimes := 2\<rparr>)\<rparr>"

text \<open>
  The example writer after a whole scan that started at time 60 and ended at time 62
  (the clock read 61 after the batch).
\<close>

definition exampleClock :: "nat \<Rightarrow> int64" where
  "exampleClock k = 61"

definition scannedWriter :: messageWriter where
  "scannedWriter = sentWriter\<lparr>lastNewWrite := None, nextFullScan := Some 1062\<rparr>"

text \<open>
  The writes of a sequence that pass admission, and the ids that \<open>n\<close> admitted writes
  get, in order.
\<close>

definition admitted :: "messageWriter \<Rightarrow> (addr \<times> int64) list \<Rightarrow> (addr \<times> int64) list" where
  "admitted w ws = filter (\<lambda>p. isValidWriteWithLock w (snd p)) ws"

definition newIDs :: "messageWriter \<Rightarrow> nat \<Rightarrow> uint64 list" where
  "newIDs w n = map (\<lambda>k. msgID w + of_nat (Suc k)) [0..<n]"

text \<open>The new writes since the last scan start form the block \<open>blk\<close> at the front.\<close>

definition frontBlock :: "messageWriter \<Rightarrow> addr list \<Rightarrow> addr list \<Rightarrow> bool" where
  "frontBlock w blk old \<longleftrightarrow>
     queue w = blk @ old \<and>
     lastNewWrite w = (if blk = [] then None else Some (last blk)) \<and>
     distinct blk \<and>
     (\<forall>x\<in>set (queue w). x < nextFree (mPool w))"

subsection \<open>The states of a run\<close>

text \<open>
  The states that a writer goes through, each operation under the writer's lock being
  one step: from a new writer, by the public operations,
  by the pieces of a scan that run under the writer's lock (the scan's start, a batch
  from any element with any clock reading and mode, the scan's end), by a whole scan, by
  the two steps of \<open>Close\<close>, and by the producer changing its payloads.
\<close>

inductive reachable :: "messageWriter \<Rightarrow> bool" where
  reach_new: "reachable (newMessageWriter s os)"
| reach_Write: "reachable w \<Longrightarrow> reachable (Write w rm nowNanos)"
| reach_Ack: "reachable w \<Longrightarrow> reachable (snd (Ack w mt))"
| reach_scanStart: "reachable w \<Longrightarrow> reachable (w\<lparr>lastNewWrite := None\<rparr>)"
| reach_scanBatch:
    "reachable w \<Longrightarrow>
     scanBatchWithLock w start nowNanos batchSize fullScan sm = Inr (next', msgs, w', sm') \<Longrightarrow>
     reachable w'"
| reach_scanEnd: "reachable w \<Longrightarrow> reachable (w\<lparr>nextFullScan := t\<rparr>)"
| reach_scan:
    "reachable w \<Longrightarrow>
     scanMessageQueue w bound write beforeScan clock afterScan = Some (Inr (w', sm')) \<Longrightarrow>
     reachable w'"
| reach_Init: "reachable w \<Longrightarrow> reachable (Init w)"
| reach_closeFlag: "reachable w \<Longrightarrow> reachable (w\<lparr>isClosed := True\<rparr>)"
| reach_closeDone: "reachable w \<Longrightarrow> reachable (w\<lparr>doneCh := True, wg := 0\<rparr>)"
| reach_SetCutoffNanos: "reachable w \<Longrightarrow> reachable (SetCutoffNanos w nanos)"
| reach_SetCutoverNanos: "reachable w \<Longrightarrow> reachable (SetCutoverNanos w nanos)"
| reach_SetMessageTTLNanos: "reachable w \<Longrightarrow> reachable (SetMessageTTLNanos w nanos)"
| reach_AddConsumerWriter: "reachable w \<Longrightarrow> reachable (AddConsumerWriter w cw)"
| reach_RemoveConsumerWriter: "reachable w \<Longrightarrow> reachable (RemoveConsumerWriter w a)"
| reach_producer: "reachable w \<Longrightarrow> reachable (w\<lparr>payloads := ps\<rparr>)"

text \<open>
  The bookkeeping of the ack table, as long as the 64-bit id counter has not wrapped
  around: the counter is the number of admitted writes, the ids in the table are among
  those given out, and the table's size is the number of admitted writes less the
  entries that \<open>acks.ack\<close> and \<open>acks.remove\<close> took out.
\<close>

definition accounted :: "messageWriter \<Rightarrow> bool" where
  "accounted w \<longleftrightarrow>
     (admittedWrites (hist w) < 2 ^ 64 \<longrightarrow>
        msgID w = of_nat (admittedWrites (hist w)) \<and>
        (\<forall>k\<in>dom (acks w). 1 \<le> unat k \<and> unat k \<le> admittedWrites (hist w)) \<and>
        card (dom (acks w)) + ackTransitions (hist w) + dropRemovals (hist w)
          = admittedWrites (hist w))"

text \<open>The example writer after two writes and the ack of the first.\<close>

definition twoWritesOneAck :: messageWriter where
  "twoWritesOneAck = snd (Ack (Write ackedOnce 2 51) meta1)"

text \<open>What a closed-mode step keeps: the flag, the options, the channel and the wait group.\<close>

definition sameLifecycle :: "messageWriter \<Rightarrow> messageWriter \<Rightarrow> bool" where
  "sameLifecycle w w' \<longleftrightarrow>
     isClosed w' = isClosed w \<and> opts w' = opts w \<and> doneCh w' = doneCh w \<and> wg w' = wg w"

text \<open>
  The example writer with its one message after \<open>Close\<close>: the worker's scan has acked
  and removed the message and given its envelope back to the pool.
\<close>

definition drainedWriter :: messageWriter where
  "drainedWriter = ackedOnce\<lparr>
      isClosed := True, doneCh := True, wg := 0, queue := [], lastNewWrite := None,
      acks := Map.empty, msgsToWrite := [], nextFullScan := Some 1062,
      heap := (\<lambda>a. newMessage),
      payloads := (\<lambda>p. \<lparr>refCount = 0, droppedOrConsumed = False\<rparr>),
      mPool := \<lparr>nextFree = 1, returned = [0]\<rparr>,
      hist := \<lparr>admittedWrites = 1, ackTransitions = 1, dropRemovals = 0\<rparr>\<rparr>"


text \<open>Every envelope in the queue came from the pool.\<close>

definition allocated :: "messageWriter \<Rightarrow> bool" where
  "allocated w \<longleftrightarrow> (\<forall>a\<in>set (queue w). a < nextFree (mPool w))"

text \<open>
  A step of the scan only takes elements out of the queue, takes nothing from the pool and
  leaves the last-new-write cursor alone.
\<close>

definition shrinks :: "messageWriter \<Rightarrow> messageWriter \<Rightarrow> bool" where
  "shrinks w w' \<longleftrightarrow>
     set (queue w') \<subseteq> set (queue w) \<and> nextFree (mPool w') = nextFree (mPool w) \<and>
     lastNewWrite w' = lastNewWrite w"

subsection \<open>Properties of the static table\<close>

lemma staticRetryNanos_in_range:
  assumes "1 \<le> n" "backoffInt64s \<noteq> []"
  shows "staticRetryNanos backoffInt64s n
         = Inr (backoffInt64s ! nat (min (n - 1) (int (length backoffInt64s) - 1)))"
proof -
  have "0 < length backoffInt64s" using assms(2) by simp
  then show ?thesis using assms(1)
    by (auto simp: staticRetryNanos_def sliceIndex_def Let_def min_def)
qed

lemma staticRetryNanos_below_one:
  assumes "- (2 ^ 63) < n" "n < 1" "backoffInt64s \<noteq> []"
  shows "staticRetryNanos backoffInt64s n = Inl IndexOutOfRange"
proof -
  have "0 < length backoffInt64s" using assms(3) by simp
  then show ?thesis using assms(1,2)
    by (auto simp: staticRetryNanos_def sliceIndex_def Let_def)
qed

lemma staticRetryNanos_smallest_int:
  assumes "backoffInt64s \<noteq> []"
  shows "staticRetryNanos backoffInt64s (- (2 ^ 63))
         = Inr (backoffInt64s ! nat (min (2 ^ 63 - 1) (int (length backoffInt64s) - 1)))"
proof -
  have "0 < length backoffInt64s" using assms by simp
  then show ?thesis
    by (auto simp: staticRetryNanos_def sliceIndex_def Let_def min_def)
qed

text \<open>
  C8. \<open>StaticRetryNanosFn\<close> fails with the invalid-backoff-duration error exactly when the
  table is empty; otherwise it succeeds, and the function it returns gives, for an attempt
  \<open>n\<close> (attempts are counted from 1), the table entry at index \<open>min (n - 1) (len - 1)\<close>.
\<close>

theorem C8_StaticRetryNanosFn:
  "(StaticRetryNanosFn tbl = Inl errInvalidBackoffDuration \<longleftrightarrow> tbl = []) \<and>
   (tbl \<noteq> [] \<longrightarrow>
      (\<exists>f. StaticRetryNanosFn tbl = Inr f \<and>
           (\<forall>n\<ge>1. f n = Inr (tbl ! nat (min (n - 1) (int (length tbl) - 1))))))"
proof (cases "tbl = []")
  case True
  then show ?thesis by (simp add: StaticRetryNanosFn_def)
next
  case False
  then have "StaticRetryNanosFn tbl = Inr (staticRetryNanos tbl)"
    by (simp add: StaticRetryNanosFn_def)
  with False show ?thesis
    using staticRetryNanos_in_range [of _ tbl] by simp
qed

theorem C8_StaticRetryNanosFn_witness:
  "StaticRetryNanosFn [] = Inl errInvalidBackoffDuration \<and>
   (\<exists>f. StaticRetryNanosFn [10, 20, 30] = Inr f \<and> f 1 = Inr 10 \<and> f 2 = Inr 20 \<and> f 3 = Inr 30 \<and> f 7 = Inr 30)"
proof -
  from C8_StaticRetryNanosFn [of "[10, 20, 30]"]
  obtain f where f: "StaticRetryNanosFn [10, 20, 30] = Inr f"
    and all: "\<forall>n\<ge>1. f n = Inr ([10, 20, 30] ! nat (min (n - 1) (int (length [10, 20, 30 :: int64]) - 1)))"
    by auto
  have "f 1 = Inr 10" "f 2 = Inr 20" "f 3 = Inr 30" "f 7 = Inr 30"
    using all [rule_format, of 1] all [rule_format, of 2] all [rule_format, of 3] all [rule_format, of 7]
    by (simp_all add: min_def)
  moreover have "StaticRetryNanosFn [] = Inl errInvalidBackoffDuration"
    using C8_StaticRetryNanosFn [of "[]"] by simp
  ultimately show ?thesis using f by simp
qed

subsection \<open>Properties of the exponential scheduler\<close>

lemma int64_of_float64_exact: "int64_of_float64 fu (real_of_int (sint (w::int64))) = w"
proof -
  have bounds: "- (2 ^ 63) \<le> sint w" "sint w < 2 ^ 63"
    using sint_ge [of w] sint_lt [of w] by simp_all
  have w: "(word_of_int (sint w) :: int64) = w" by simp
  have fl: "\<lfloor>real_of_int (sint w)\<rfloor> = sint w" "\<lceil>real_of_int (sint w)\<rceil> = sint w"
    by (simp_all del: of_int_sint)
  show ?thesis unfolding int64_of_float64_def Let_def fl using bounds w by simp
qed

lemmas NextRetryNanosFn_eval =
  NextRetryNanosFn_def exactFloat64_def fastrandnOf_def retryOpts10ms_def int64_div_def
  Microsecond_def MaxUint32_def signed_divide_int_def word_sle_eq word_sless_alt Let_def
  float64_of_int_def float64_mul_def int64_of_float64_def backoffFloat64_def

text \<open>
  C6, as stated, fails: with jitter enabled and an initial backoff of 10 ms the call with
  write-times 0 returns half of it plus a random part below the other half
  (here 7.5 ms), not the initial backoff.
\<close>

theorem C6_jitter_counterexample:
  "NextRetryNanosFn exactFloat64 (fastrandnOf 2147483648) (retryOpts10ms True) 0 = 7500000 \<and>
   InitialBackoff (retryOpts10ms True) = 10000000"
  by (simp add: NextRetryNanosFn_eval)

text \<open>
  C6, amended. When the jitter branch is not taken (jitter disabled, or an initial backoff
  below 2 ns) and the initial backoff does not exceed the maximal one, the call with
  write-times 0 returns exactly the initial backoff; so does the call with write-times 1,
  provided the initial backoff is a \<open>float64\<close> (its conversion does not round) and
  \<open>math.Pow\<close> returns 1 at exponent 0.
\<close>

theorem C6_initial_backoff_without_jitter:
  assumes "\<not> (Jitter ro \<and> 2 \<le>s InitialBackoff ro \<and>
              int64_div (int64_div (InitialBackoff ro) 2) Microsecond <s MaxUint32)"
    and "InitialBackoff ro \<le>s MaxBackoff ro"
  shows "NextRetryNanosFn fu rnd ro 0 = InitialBackoff ro \<and>
         (roundF fu (real_of_int (sint (InitialBackoff ro))) = real_of_int (sint (InitialBackoff ro)) \<and>
          powF fu (BackoffFactor ro) (roundF fu 0) = 1
          \<longrightarrow> NextRetryNanosFn fu rnd ro 1 = InitialBackoff ro)"
  using assms
  by (auto simp add: NextRetryNanosFn_def Let_def word_sle_eq word_sless_alt float64_of_int_def
      float64_mul_def backoffFloat64_def int64_of_float64_exact simp del: of_int_sint)

theorem C6_initial_backoff_without_jitter_witness:
  "NextRetryNanosFn exactFloat64 (fastrandnOf 2147483648) (retryOpts10ms False) 0 = 10000000 \<and>
   NextRetryNanosFn exactFloat64 (fastrandnOf 2147483648) (retryOpts10ms False) 1 = 10000000"
proof -
  have j: "\<not> (Jitter (retryOpts10ms False) \<and> 2 \<le>s InitialBackoff (retryOpts10ms False) \<and>
              int64_div (int64_div (InitialBackoff (retryOpts10ms False)) 2) Microsecond <s MaxUint32)"
    by (simp add: retryOpts10ms_def)
  have m: "InitialBackoff (retryOpts10ms False) \<le>s MaxBackoff (retryOpts10ms False)"
    by (simp add: retryOpts10ms_def word_sle_eq)
  have f: "roundF exactFloat64 (real_of_int (sint (InitialBackoff (retryOpts10ms False))))
             = real_of_int (sint (InitialBackoff (retryOpts10ms False)))"
          "powF exactFloat64 (BackoffFactor (retryOpts10ms False)) (roundF exactFloat64 0) = 1"
    by (simp_all add: exactFloat64_def)
  have i: "InitialBackoff (retryOpts10ms False) = 10000000"
    by (simp add: retryOpts10ms_def)
  show ?thesis
    using C6_initial_backoff_without_jitter [OF j m, of exactFloat64 "fastrandnOf 2147483648"] f i
    by simp
qed

section \<open>Properties of the writer\<close>

lemmas writer_eval =
  exampleWriter_def exampleOpts_def closedWriter_def nobody_def sendOk_def
  newMessageWriter_def AddConsumerWriter_def Write_def
  newMessage_writer_def mPool_Get_def isValidWriteWithLock_def IncRef_def DecRef_def Set_def acks_add_def
  acks_ack_def acks_remove_def Ack_def Ack_message_def ExpectedProcessAtNanos_def
  PushFront_def InsertAfter_def scanMessageQueue_def Front_def scanBatchWithLock_def
  scanElement_def Let_def word_sle_eq word_sless_alt newMessage_def Metadata_def RetryAtNanos_def
  InitNanos_def IsAcked_def IsDroppedOrConsumed_def IncWriteTimes_def WriteTimes_def
  staticRetryNanos_def sliceIndex_def SetRetryAtNanos_def incr_def noMetrics_def writeBatch_def
  queueIDs_def Close_def isEmpty_def close_def Close_message_def mPool_Put_def
  removeFromQueueWithLock_def Remove_def SetCutoffNanos_def SetCutoverNanos_def

subsection \<open>Admission of a Write\<close>

text \<open>
  C1, as stated, fails: \<open>Write\<close> never reads the closed flag. On the example writer,
  closed by \<open>Close\<close>, a \<open>Write\<close> at time 50 puts its message in the queue, registers
  it in the ack table and takes a reference on the payload; no envelope goes back to the
  pool.
\<close>

theorem C1_write_after_close_counterexample:
  "Close exampleWriter 0 nobody = Some (Inr closedWriter) \<and> isClosed closedWriter \<and>
   queue closedWriter = [] \<and> acks closedWriter 1 = None \<and> refCount (payloads closedWriter 1) = 0 \<and>
   queue (Write closedWriter 1 50) = [0] \<and>
   acks (Write closedWriter 1 50) 1 = Some 0 \<and>
   refCount (payloads (Write closedWriter 1 50) 1) = 1 \<and>
   returned (mPool (Write closedWriter 1 50)) = []"
  by (simp add: writer_eval)

lemma isValidWriteWithLock_isClosed:
  "isValidWriteWithLock (w\<lparr>isClosed := c\<rparr>) nowNanos = isValidWriteWithLock w nowNanos"
  by (simp add: isValidWriteWithLock_def)


lemma isValidWriteWithLock_mPool_Get:
  "isValidWriteWithLock (snd (mPool_Get w)) nowNanos = isValidWriteWithLock w nowNanos"
  by (simp add: isValidWriteWithLock_def mPool_Get_def Let_def)

lemma Write_rejected:
  assumes "\<not> isValidWriteWithLock w nowNanos"
  shows "Write w rm nowNanos = close (snd (mPool_Get w)) (nextFree (mPool w))"
proof -
  have "\<not> isValidWriteWithLock (snd (mPool_Get w)) nowNanos"
    using assms by (simp add: isValidWriteWithLock_mPool_Get)
  moreover have "fst (mPool_Get w) = nextFree (mPool w)"
    by (simp add: mPool_Get_def Let_def)
  ultimately show ?thesis
    by (cases "mPool_Get w") (simp add: Write_def newMessage_writer_def)
qed

lemma Write_rejected_state:
  assumes "\<not> isValidWriteWithLock w nowNanos"
  shows "Write w rm nowNanos
         = w\<lparr>mPool := \<lparr>nextFree = nextFree (mPool w) + 1,
                        returned = nextFree (mPool w) # returned (mPool w)\<rparr>,
              heap := (heap w)(nextFree (mPool w) := newMessage)\<rparr>"
  unfolding Write_rejected [OF assms]
  by (simp add: close_def Close_message_def mPool_Put_def mPool_Get_def Let_def newMessage_def)

lemma Write_admitted_state:
  assumes "isValidWriteWithLock w nowNanos"
  shows "Write w rm nowNanos
         = w\<lparr>mPool := (mPool w)\<lparr>nextFree := nextFree (mPool w) + 1\<rparr>,
              heap := (heap w)(nextFree (mPool w) :=
                         Set \<lparr>shard = replicatedShardID w, id' = msgID w + 1\<rparr> rm nowNanos newMessage),
              payloads := (payloads w)(rm := (payloads w rm)\<lparr>refCount := refCount (payloads w rm) + 1\<rparr>),
              msgID := msgID w + 1,
              acks := (acks w)(msgID w + 1 \<mapsto> nextFree (mPool w)),
              hist := (hist w)\<lparr>admittedWrites := admittedWrites (hist w) + 1\<rparr>,
              queue := (case lastNewWrite w of None \<Rightarrow> nextFree (mPool w) # queue w
                        | Some l \<Rightarrow> fst (InsertAfter (queue w) (nextFree (mPool w)) l)),
              lastNewWrite := (case lastNewWrite w of None \<Rightarrow> Some (nextFree (mPool w))
                        | Some l \<Rightarrow> snd (InsertAfter (queue w) (nextFree (mPool w)) l))\<rparr>"
proof -
  have v: "isValidWriteWithLock (snd (mPool_Get w)) nowNanos"
    using assms by (simp add: isValidWriteWithLock_mPool_Get)
  have g: "mPool_Get w = (nextFree (mPool w),
             w\<lparr>mPool := (mPool w)\<lparr>nextFree := nextFree (mPool w) + 1\<rparr>,
               heap := (heap w)(nextFree (mPool w) := newMessage)\<rparr>)"
    by (simp add: mPool_Get_def Let_def)
  have v0: "isValidWriteWithLock (w\<lparr>mPool := (mPool w)\<lparr>nextFree := nextFree (mPool w) + 1\<rparr>,
               heap := (heap w)(nextFree (mPool w) := newMessage)\<rparr>) nowNanos"
    using v g by simp
  show ?thesis
  proof (cases "lastNewWrite w")
    case None
    then show ?thesis
      using v0 g
      by (simp add: Write_def newMessage_writer_def Let_def IncRef_def acks_add_def PushFront_def)
  next
    case (Some l)
    then show ?thesis
      using v0 g
      by (simp add: Write_def newMessage_writer_def Let_def IncRef_def acks_add_def split_beta)
  qed
qed

lemma close_fresh_envelope:
  "queue (close (snd (mPool_Get w)) (nextFree (mPool w))) = queue w"
  "acks (close (snd (mPool_Get w)) (nextFree (mPool w))) = acks w"
  "payloads (close (snd (mPool_Get w)) (nextFree (mPool w))) = payloads w"
  "msgID (close (snd (mPool_Get w)) (nextFree (mPool w))) = msgID w"
  "msgsToWrite (close (snd (mPool_Get w)) (nextFree (mPool w))) = msgsToWrite w"
  "isClosed (close (snd (mPool_Get w)) (nextFree (mPool w))) = isClosed w"
  "returned (mPool (close (snd (mPool_Get w)) (nextFree (mPool w)))) = nextFree (mPool w) # returned (mPool w)"
  by (simp_all add: close_def Close_message_def mPool_Put_def mPool_Get_def Let_def newMessage_def)

lemma set_insertAfter:
  "mark \<in> set q \<Longrightarrow> set (insertAfter v mark q) = insert v (set q)"
  by (induction q) auto

lemma Write_admitted:
  assumes "isValidWriteWithLock w nowNanos"
  shows "acks (Write w rm nowNanos) = (acks w)(msgID w + 1 \<mapsto> nextFree (mPool w))"
    and "refCount (payloads (Write w rm nowNanos) rm) = refCount (payloads w rm) + 1"
    and "returned (mPool (Write w rm nowNanos)) = returned (mPool w)"
    and "queue (Write w rm nowNanos) =
          (case lastNewWrite w of None \<Rightarrow> nextFree (mPool w) # queue w
           | Some l \<Rightarrow> fst (InsertAfter (queue w) (nextFree (mPool w)) l))"
    and "lastNewWrite (Write w rm nowNanos) =
          (case lastNewWrite w of None \<Rightarrow> Some (nextFree (mPool w))
           | Some l \<Rightarrow> snd (InsertAfter (queue w) (nextFree (mPool w)) l))"
  unfolding Write_admitted_state [OF assms] by simp_all

text \<open>
  C1, amended. Admission depends on the cutoff and cutover settings and on the clock
  only, not on the closed flag: a \<open>Write\<close> fails admission exactly when cutoff and
  cutover are not ignored and the time is at or after a positive cutoff or before a
  positive cutover. A \<open>Write\<close> that fails admission, on a closed writer or not, gives
  its envelope back to the pool unsent: the queue, the ack table, the id counter and the
  payloads' reference counts are unchanged. A \<open>Write\<close> that passes admission, closed
  writer or not, is put in the queue and in the ack table and takes a reference.
\<close>

theorem C1_write_admission:
  "(isValidWriteWithLock w nowNanos \<longleftrightarrow>
      IgnoreCutoffCutover (opts w) \<or>
      \<not> (0 <s cutOffNanos w \<and> cutOffNanos w \<le>s nowNanos) \<and>
      \<not> (0 <s cutOverNanos w \<and> nowNanos <s cutOverNanos w)) \<and>
   (\<not> isValidWriteWithLock w nowNanos \<longrightarrow>
      queue (Write w rm nowNanos) = queue w \<and>
      acks (Write w rm nowNanos) = acks w \<and>
      payloads (Write w rm nowNanos) = payloads w \<and>
      msgID (Write w rm nowNanos) = msgID w \<and>
      msgsToWrite (Write w rm nowNanos) = msgsToWrite w \<and>
      isClosed (Write w rm nowNanos) = isClosed w \<and>
      returned (mPool (Write w rm nowNanos)) = nextFree (mPool w) # returned (mPool w)) \<and>
   (isValidWriteWithLock w nowNanos \<and> (\<forall>l. lastNewWrite w = Some l \<longrightarrow> l \<in> set (queue w)) \<longrightarrow>
      set (queue (Write w rm nowNanos)) = insert (nextFree (mPool w)) (set (queue w)) \<and>
      acks (Write w rm nowNanos) = (acks w)(msgID w + 1 \<mapsto> nextFree (mPool w)) \<and>
      refCount (payloads (Write w rm nowNanos) rm) = refCount (payloads w rm) + 1 \<and>
      returned (mPool (Write w rm nowNanos)) = returned (mPool w))"
proof (intro conjI impI)
  show "isValidWriteWithLock w nowNanos \<longleftrightarrow>
      IgnoreCutoffCutover (opts w) \<or>
      \<not> (0 <s cutOffNanos w \<and> cutOffNanos w \<le>s nowNanos) \<and>
      \<not> (0 <s cutOverNanos w \<and> nowNanos <s cutOverNanos w)"
    by (simp add: isValidWriteWithLock_def)
next
  assume r: "\<not> isValidWriteWithLock w nowNanos"
  note eq = Write_rejected [OF r, of rm]
  show "queue (Write w rm nowNanos) = queue w" unfolding eq by (rule close_fresh_envelope)
  show "acks (Write w rm nowNanos) = acks w" unfolding eq by (rule close_fresh_envelope)
  show "payloads (Write w rm nowNanos) = payloads w" unfolding eq by (rule close_fresh_envelope)
  show "msgID (Write w rm nowNanos) = msgID w" unfolding eq by (rule close_fresh_envelope)
  show "msgsToWrite (Write w rm nowNanos) = msgsToWrite w" unfolding eq by (rule close_fresh_envelope)
  show "isClosed (Write w rm nowNanos) = isClosed w" unfolding eq by (rule close_fresh_envelope)
  show "returned (mPool (Write w rm nowNanos)) = nextFree (mPool w) # returned (mPool w)"
    unfolding eq by (rule close_fresh_envelope)
next
  assume a: "isValidWriteWithLock w nowNanos \<and> (\<forall>l. lastNewWrite w = Some l \<longrightarrow> l \<in> set (queue w))"
  then have v: "isValidWriteWithLock w nowNanos" by simp
  show "set (queue (Write w rm nowNanos)) = insert (nextFree (mPool w)) (set (queue w))"
    using a by (auto simp: Write_admitted(4) [OF v] InsertAfter_def set_insertAfter split: option.splits)
  show "acks (Write w rm nowNanos) = (acks w)(msgID w + 1 \<mapsto> nextFree (mPool w))"
    by (rule Write_admitted(1) [OF v])
  show "refCount (payloads (Write w rm nowNanos) rm) = refCount (payloads w rm) + 1"
    by (rule Write_admitted(2) [OF v])
  show "returned (mPool (Write w rm nowNanos)) = returned (mPool w)"
    by (rule Write_admitted(3) [OF v])
qed

theorem C1_write_admission_witness:
  "\<not> isValidWriteWithLock cutoffWriter 1500 \<and> isClosed cutoffWriter \<and>
   queue (Write cutoffWriter 1 1500) = [] \<and>
   acks (Write cutoffWriter 1 1500) = Map.empty \<and>
   returned (mPool (Write cutoffWriter 1 1500)) = [0] \<and>
   isValidWriteWithLock closedWriter 1500 \<and> isClosed closedWriter \<and>
   set (queue (Write closedWriter 1 1500)) = {0} \<and>
   acks (Write closedWriter 1 1500) = [1 \<mapsto> 0] \<and>
   refCount (payloads (Write closedWriter 1 1500) 1) = 1"
proof -
  have r: "\<not> isValidWriteWithLock cutoffWriter 1500"
    by (simp add: cutoffWriter_def writer_eval)
  have v: "isValidWriteWithLock closedWriter 1500 \<and> (\<forall>l. lastNewWrite closedWriter = Some l \<longrightarrow> l \<in> set (queue closedWriter))"
    by (simp add: writer_eval)
  have s: "isClosed cutoffWriter" "isClosed closedWriter" "queue cutoffWriter = []" "acks cutoffWriter = Map.empty"
    "nextFree (mPool cutoffWriter) = 0" "returned (mPool cutoffWriter) = []"
    "queue closedWriter = []" "acks closedWriter = Map.empty" "nextFree (mPool closedWriter) = 0"
    "msgID closedWriter = 0" "refCount (payloads closedWriter 1) = 0"
    by (simp_all add: cutoffWriter_def writer_eval)
  show ?thesis
    using C1_write_admission [of cutoffWriter 1500 1] C1_write_admission [of closedWriter 1500 1] r v s
    by simp
qed

subsection \<open>Ack\<close>

lemma Ack_result:
  "fst (Ack w mt) \<longleftrightarrow> acks w (id' mt) \<noteq> None"
  by (simp add: Ack_def acks_ack_def Let_def split: option.splits)

lemma Ack_false_unchanged:
  "\<not> fst (Ack w mt) \<Longrightarrow> snd (Ack w mt) = w"
  by (simp add: Ack_def acks_ack_def Let_def split: option.splits)

lemma Ack_true_effect:
  assumes "acks w (id' mt) = Some a"
  shows "snd (Ack w mt) = w\<lparr>acks := (acks w)(id' mt := None),
                             heap := (heap w)(a := Ack_message (heap w a)),
                             hist := (hist w)\<lparr>ackTransitions := ackTransitions (hist w) + 1\<rparr>\<rparr>"
  using assms by (simp add: Ack_def acks_ack_def Let_def)

lemma Ack_acks:
  "acks (snd (Ack w mt)) = (acks w)(id' mt := None)"
  by (auto simp: Ack_def acks_ack_def Let_def split: option.splits)

lemma AckAll_Cons:
  "fst (AckAll w (mt # mts)) = fst (Ack w mt) # fst (AckAll (snd (Ack w mt)) mts)"
  by (simp split: prod.splits)

lemma AckAll_absent:
  "acks w i = None \<Longrightarrow> filter (\<lambda>p. id' (fst p) = i \<and> snd p) (zip mts (fst (AckAll w mts))) = []"
proof (induction mts arbitrary: w)
  case Nil
  then show ?case by simp
next
  case (Cons mt mts)
  have absent: "acks (snd (Ack w mt)) i = None"
    using Cons.prems by (simp add: Ack_acks)
  have no: "id' mt = i \<Longrightarrow> \<not> fst (Ack w mt)"
    using Cons.prems by (simp add: Ack_result)
  show ?case
    using Cons.IH [OF absent] no by (auto simp: AckAll_Cons simp del: AckAll.simps)
qed

lemma AckAll_at_most_once:
  "length (filter (\<lambda>p. id' (fst p) = i \<and> snd p) (zip mts (fst (AckAll w mts)))) \<le> 1"
proof (induction mts arbitrary: w)
  case Nil
  then show ?case by simp
next
  case (Cons mt mts)
  show ?case
  proof (cases "id' mt = i \<and> fst (Ack w mt)")
    case True
    then have "acks (snd (Ack w mt)) i = None"
      by (simp add: Ack_acks)
    from AckAll_absent [OF this, of mts] True show ?thesis
      by (simp add: AckAll_Cons del: AckAll.simps)
  next
    case False
    with Cons.IH [of "snd (Ack w mt)"] show ?thesis
      by (auto simp: AckAll_Cons simp del: AckAll.simps)
  qed
qed

lemma filter_meta_le:
  "length (filter (\<lambda>p. fst p = mt0 \<and> snd p) xs) \<le> length (filter (\<lambda>p. id' (fst p) = id' mt0 \<and> snd p) xs)"
  by (induction xs) auto

text \<open>
  C3. \<open>Ack\<close> returns true at most once: in any sequence of \<open>Ack\<close> calls, from any
  state of the writer, at most one call for a given message id (hence at most one call
  with a given metadata) returns true. A call returns true exactly when the id has an
  entry in the ack table; it then removes the entry and sets the ack flag of the
  message, so that a second call with the same metadata returns false. A call that
  returns false (unknown id, or acked already) leaves the whole state unchanged.
\<close>

theorem C3_Ack_at_most_once:
  "length (filter (\<lambda>p. id' (fst p) = i \<and> snd p) (zip mts (fst (AckAll w mts)))) \<le> 1 \<and>
   length (filter (\<lambda>p. fst p = mt0 \<and> snd p) (zip mts (fst (AckAll w mts)))) \<le> 1 \<and>
   (fst (Ack w mt) \<longleftrightarrow> acks w (id' mt) \<noteq> None) \<and>
   (\<not> fst (Ack w mt) \<longrightarrow> snd (Ack w mt) = w) \<and>
   (fst (Ack w mt) \<longrightarrow>
      acks (snd (Ack w mt)) = (acks w)(id' mt := None) \<and>
      (\<forall>a. acks w (id' mt) = Some a \<longrightarrow> IsAcked (heap (snd (Ack w mt)) a)) \<and>
      \<not> fst (Ack (snd (Ack w mt)) mt) \<and>
      snd (Ack (snd (Ack w mt)) mt) = snd (Ack w mt))"
proof (intro conjI impI allI)
  show "length (filter (\<lambda>p. id' (fst p) = i \<and> snd p) (zip mts (fst (AckAll w mts)))) \<le> 1"
    by (rule AckAll_at_most_once)
  show "length (filter (\<lambda>p. fst p = mt0 \<and> snd p) (zip mts (fst (AckAll w mts)))) \<le> 1"
    using filter_meta_le [of mt0 "zip mts (fst (AckAll w mts))"] AckAll_at_most_once [of "id' mt0" mts w]
    by linarith
  show "fst (Ack w mt) \<longleftrightarrow> acks w (id' mt) \<noteq> None" by (rule Ack_result)
next
  assume "\<not> fst (Ack w mt)"
  then show "snd (Ack w mt) = w" by (rule Ack_false_unchanged)
next
  assume t: "fst (Ack w mt)"
  show "acks (snd (Ack w mt)) = (acks w)(id' mt := None)" by (rule Ack_acks)
  have again: "\<not> fst (Ack (snd (Ack w mt)) mt)"
    by (simp add: Ack_result Ack_acks)
  then show "\<not> fst (Ack (snd (Ack w mt)) mt)" .
  from again show "snd (Ack (snd (Ack w mt)) mt) = snd (Ack w mt)"
    by (rule Ack_false_unchanged)
next
  fix a
  assume "fst (Ack w mt)" and a: "acks w (id' mt) = Some a"
  show "IsAcked (heap (snd (Ack w mt)) a)"
    by (simp add: Ack_true_effect [OF a] IsAcked_def Ack_message_def)
qed

theorem C3_Ack_at_most_once_witness:
  "fst (AckAll ackedOnce [meta1, meta1, meta9, meta1]) = [True, False, False, False] \<and>
   length (filter (\<lambda>p. id' (fst p) = 1 \<and> snd p)
      (zip [meta1, meta1, meta9, meta1] (fst (AckAll ackedOnce [meta1, meta1, meta9, meta1])))) \<le> 1 \<and>
   fst (Ack ackedOnce meta1) \<and> acks ackedOnce (id' meta1) = Some 0 \<and>
   IsAcked (heap (snd (Ack ackedOnce meta1)) 0) \<and>
   acks (snd (Ack ackedOnce meta1)) (id' meta1) = None \<and>
   \<not> fst (Ack ackedOnce meta9) \<and> snd (Ack ackedOnce meta9) = ackedOnce"
proof -
  have e: "fst (AckAll ackedOnce [meta1, meta1, meta9, meta1]) = [True, False, False, False]"
    by (simp add: ackedOnce_def meta1_def meta9_def writer_eval)
  have a: "acks ackedOnce (id' meta1) = Some 0" "acks ackedOnce (id' meta9) = None"
    by (simp_all add: ackedOnce_def meta1_def meta9_def writer_eval)
  show ?thesis
    using C3_Ack_at_most_once [of 1 "[meta1, meta1, meta9, meta1]" ackedOnce meta1 meta1]
      C3_Ack_at_most_once [of 1 "[meta1, meta1, meta9, meta1]" ackedOnce meta1 meta9] e a
    by simp
qed

subsection \<open>Classification of an element by the scan\<close>

text \<open>
  C4, as stated, fails at the boundary: the test of the source is
  \<open>m.RetryAtNanos() >= nowNanos\<close>. After a first send at time 60 with a backoff of 40
  the message's retry-at-nanos is 100; the scan at time 100 classifies it as not
  ready and leaves it untouched, it does not go on to the other checks.
\<close>

theorem C4_retry_at_equal_now_counterexample:
  "scanBatchWithLock ackedOnce (Some 0) 60 16 True noMetrics
     = Inr (None, [0], sentWriter, incr idx_processedWrite noMetrics) \<and>
   \<not> isClosed sentWriter \<and> RetryAtNanos (heap sentWriter 0) = 100 \<and>
   scanElement sentWriter 0 100 True noMetrics
     = Inr (Continue, sentWriter, incr idx_processedNotReady noMetrics)"
  by (simp add: sentWriter_def ackedOnce_def writer_eval)

lemma incr_same: "incr i sm i = sm i + 1"
  by (simp add: incr_def)

lemma incr_other: "j \<noteq> i \<Longrightarrow> incr i sm j = sm j"
  by (simp add: incr_def)

lemma incr_neq: "incr i sm \<noteq> sm"
proof
  assume "incr i sm = sm"
  then have "incr i sm i = sm i" by simp
  then show False by (simp add: incr_def)
qed

lemma scanElement_not_ready:
  assumes "\<not> isClosed w" "nowNanos \<le>s RetryAtNanos (heap w e)"
  shows "scanElement w e nowNanos fullScan sm
         = Inr (if fullScan then Continue else Break, w, incr idx_processedNotReady sm)"
  using assms by (simp add: scanElement_def Let_def)

lemma scanElement_ready_or_cleanup:
  assumes "\<not> isClosed w" "\<not> nowNanos \<le>s RetryAtNanos (heap w e)"
    and "scanElement w e nowNanos fullScan sm = Inr (c, w', sm')"
  shows "c = Continue \<and> sm' idx_processedNotReady = sm idx_processedNotReady \<and>
         (sm' idx_processedTTL = sm idx_processedTTL + 1 \<or>
          sm' idx_processedAck = sm idx_processedAck + 1 \<or>
          sm' idx_processedDrop = sm idx_processedDrop + 1 \<or>
          sm' idx_processedWrite = sm idx_processedWrite + 1)"
  using assms
  by (auto simp add: scanElement_def Let_def incr_def split: if_splits prod.splits sum.splits)

text \<open>
  C4, amended. For a writer that is not closed, the scan at time \<open>now\<close> classifies a
  message as not ready (it is kept, the state is unchanged, and only the not-ready
  counter moves) exactly when its retry-at-nanos is greater than or equal to \<open>now\<close>, as
  signed 64-bit numbers; a message whose retry-at-nanos equals \<open>now\<close> is not ready. Only
  a message whose retry-at-nanos is strictly less than \<open>now\<close> goes on to the TTL, acked,
  dropped and ready checks: the not-ready counter does not move and one of the
  counters of these four branches does.
\<close>

theorem C4_not_ready_iff:
  assumes "\<not> isClosed w"
  shows "((\<exists>c. scanElement w e nowNanos fullScan sm = Inr (c, w, incr idx_processedNotReady sm))
            \<longleftrightarrow> nowNanos \<le>s RetryAtNanos (heap w e)) \<and>
         (nowNanos \<le>s RetryAtNanos (heap w e) \<longrightarrow>
            scanElement w e nowNanos fullScan sm
              = Inr (if fullScan then Continue else Break, w, incr idx_processedNotReady sm)) \<and>
         (\<not> nowNanos \<le>s RetryAtNanos (heap w e) \<longrightarrow>
            (\<forall>c w' sm'. scanElement w e nowNanos fullScan sm = Inr (c, w', sm') \<longrightarrow>
               c = Continue \<and> sm' idx_processedNotReady = sm idx_processedNotReady \<and>
               (sm' idx_processedTTL = sm idx_processedTTL + 1 \<or>
                sm' idx_processedAck = sm idx_processedAck + 1 \<or>
                sm' idx_processedDrop = sm idx_processedDrop + 1 \<or>
                sm' idx_processedWrite = sm idx_processedWrite + 1)))"
proof -
  have p1: "(\<exists>c. scanElement w e nowNanos fullScan sm = Inr (c, w, incr idx_processedNotReady sm))
            \<longleftrightarrow> nowNanos \<le>s RetryAtNanos (heap w e)"
  proof
    assume "\<exists>c. scanElement w e nowNanos fullScan sm = Inr (c, w, incr idx_processedNotReady sm)"
    then obtain c where c: "scanElement w e nowNanos fullScan sm = Inr (c, w, incr idx_processedNotReady sm)"
      by blast
    show "nowNanos \<le>s RetryAtNanos (heap w e)"
    proof (rule ccontr)
      assume n: "\<not> nowNanos \<le>s RetryAtNanos (heap w e)"
      from scanElement_ready_or_cleanup [OF assms n c]
      have "incr idx_processedNotReady sm idx_processedNotReady = sm idx_processedNotReady" by simp
      then show False by (simp add: incr_def)
    qed
  next
    assume "nowNanos \<le>s RetryAtNanos (heap w e)"
    from scanElement_not_ready [OF assms this] show
      "\<exists>c. scanElement w e nowNanos fullScan sm = Inr (c, w, incr idx_processedNotReady sm)"
      by blast
  qed
  have p2: "nowNanos \<le>s RetryAtNanos (heap w e) \<longrightarrow>
            scanElement w e nowNanos fullScan sm
              = Inr (if fullScan then Continue else Break, w, incr idx_processedNotReady sm)"
  proof
    assume "nowNanos \<le>s RetryAtNanos (heap w e)"
    then show "scanElement w e nowNanos fullScan sm
              = Inr (if fullScan then Continue else Break, w, incr idx_processedNotReady sm)"
      by (rule scanElement_not_ready [OF assms])
  qed
  have p3: "\<not> nowNanos \<le>s RetryAtNanos (heap w e) \<longrightarrow>
            (\<forall>c w' sm'. scanElement w e nowNanos fullScan sm = Inr (c, w', sm') \<longrightarrow>
               c = Continue \<and> sm' idx_processedNotReady = sm idx_processedNotReady \<and>
               (sm' idx_processedTTL = sm idx_processedTTL + 1 \<or>
                sm' idx_processedAck = sm idx_processedAck + 1 \<or>
                sm' idx_processedDrop = sm idx_processedDrop + 1 \<or>
                sm' idx_processedWrite = sm idx_processedWrite + 1))"
  proof (intro impI allI)
    fix c w' sm'
    assume n: "\<not> nowNanos \<le>s RetryAtNanos (heap w e)"
      and r: "scanElement w e nowNanos fullScan sm = Inr (c, w', sm')"
    from scanElement_ready_or_cleanup [OF assms n r]
    show "c = Continue \<and> sm' idx_processedNotReady = sm idx_processedNotReady \<and>
               (sm' idx_processedTTL = sm idx_processedTTL + 1 \<or>
                sm' idx_processedAck = sm idx_processedAck + 1 \<or>
                sm' idx_processedDrop = sm idx_processedDrop + 1 \<or>
                sm' idx_processedWrite = sm idx_processedWrite + 1)" .
  qed
  show ?thesis by (intro conjI p1 p2 p3)
qed

theorem C4_not_ready_iff_witness:
  "\<not> isClosed sentWriter \<and> RetryAtNanos (heap sentWriter 0) = 100 \<and>
   scanElement sentWriter 0 100 False noMetrics
     = Inr (Break, sentWriter, incr idx_processedNotReady noMetrics) \<and>
   scanElement sentWriter 0 101 False noMetrics
     = Inr (Continue, retriedWriter, incr idx_processedWrite (incr idx_messageRetry noMetrics)) \<and>
   incr idx_processedWrite (incr idx_messageRetry noMetrics) idx_processedNotReady
     = noMetrics idx_processedNotReady"
proof -
  have o: "\<not> isClosed sentWriter" by (simp add: sentWriter_def ackedOnce_def writer_eval)
  have r: "RetryAtNanos (heap sentWriter 0) = 100" by (simp add: sentWriter_def RetryAtNanos_def)
  have le: "(100::int64) \<le>s RetryAtNanos (heap sentWriter 0)"
    and nle: "\<not> (101::int64) \<le>s RetryAtNanos (heap sentWriter 0)"
    unfolding r by (simp_all add: word_sle_eq)
  have ev: "scanElement sentWriter 0 101 False noMetrics
     = Inr (Continue, retriedWriter, incr idx_processedWrite (incr idx_messageRetry noMetrics))"
    by (simp add: retriedWriter_def sentWriter_def ackedOnce_def writer_eval numeral_2_eq_2)
  note at100 = C4_not_ready_iff [OF o, of 0 100 False noMetrics, THEN conjunct2, THEN conjunct1, THEN mp, OF le]
  note at101 = C4_not_ready_iff [OF o, of 0 101 False noMetrics, THEN conjunct2, THEN conjunct2, THEN mp, OF nle,
      rule_format, OF ev]
  have a: "scanElement sentWriter 0 100 False noMetrics
     = Inr (Break, sentWriter, incr idx_processedNotReady noMetrics)"
    using at100 by simp
  have b: "incr idx_processedWrite (incr idx_messageRetry noMetrics) idx_processedNotReady
     = noMetrics idx_processedNotReady"
    using at101 by blast
  show ?thesis by (intro conjI o r a ev b)
qed

subsection \<open>The retry function at its call site\<close>

lemma scanElement_no_panic:
  assumes "\<forall>n\<ge>1. \<exists>b. nextRetryAfterNanos w n = Inr b"
  shows "\<exists>r. scanElement w e nowNanos fullScan sm = Inr r"
proof -
  have "1 \<le> WriteTimes (IncWriteTimes (heap w e))"
    by (simp add: WriteTimes_def IncWriteTimes_def)
  with assms obtain b where "nextRetryAfterNanos w (WriteTimes (IncWriteTimes (heap w e))) = Inr b"
    by blast
  then show ?thesis
    by (simp add: scanElement_def Let_def split: prod.splits)
qed

lemma close_nextRetryAfterNanos: "nextRetryAfterNanos (close w a) = nextRetryAfterNanos w"
  by (simp add: close_def Close_message_def mPool_Put_def DecRef_def Let_def split: option.splits)

lemma removeFromQueueWithLock_nextRetryAfterNanos:
  "nextRetryAfterNanos (removeFromQueueWithLock w e) = nextRetryAfterNanos w"
  by (simp add: removeFromQueueWithLock_def close_nextRetryAfterNanos)

lemma acks_ack_nextRetryAfterNanos:
  "nextRetryAfterNanos (snd (acks_ack w mt)) = nextRetryAfterNanos w"
  by (simp add: acks_ack_def Let_def split: option.splits)

lemma acks_remove_nextRetryAfterNanos:
  "nextRetryAfterNanos (acks_remove w mt) = nextRetryAfterNanos w"
  by (simp add: acks_remove_def split: option.splits)

lemma scanElement_nextRetryAfterNanos:
  assumes "scanElement w e nowNanos fullScan sm = Inr (c, w', sm')"
  shows "nextRetryAfterNanos w' = nextRetryAfterNanos w"
proof -
  have ack: "\<And>mt b x w1. acks_ack w mt = ((b, x), w1) \<Longrightarrow> nextRetryAfterNanos w1 = nextRetryAfterNanos w"
    using acks_ack_nextRetryAfterNanos by (metis snd_conv)
  show ?thesis
    using assms
    by (auto simp: scanElement_def Let_def removeFromQueueWithLock_nextRetryAfterNanos
        acks_ack_nextRetryAfterNanos acks_remove_nextRetryAfterNanos ack
        split: if_splits prod.splits sum.splits)
qed

lemma scanLoop_no_panic:
  assumes "\<forall>n\<ge>1. \<exists>b. nextRetryAfterNanos w n = Inr b"
  shows "\<exists>r. scanLoop nowNanos batchSize fullScan es iterated next' w sm = Inr r"
  using assms
proof (induction es arbitrary: iterated next' w sm)
  case Nil
  then show ?case by simp
next
  case (Cons e es)
  from scanElement_no_panic [OF Cons.prems, of e nowNanos fullScan sm]
  obtain c w' sm' where r: "scanElement w e nowNanos fullScan sm = Inr (c, w', sm')"
    by (metis prod_cases3)
  have "nextRetryAfterNanos w' = nextRetryAfterNanos w"
    by (rule scanElement_nextRetryAfterNanos [OF r])
  with Cons.prems have "\<forall>n\<ge>1. \<exists>b. nextRetryAfterNanos w' n = Inr b" by simp
  from Cons.IH [OF this] r show ?case
    by (cases c) simp_all
qed

lemma scanBatchWithLock_no_panic:
  assumes "\<forall>n\<ge>1. \<exists>b. nextRetryAfterNanos w n = Inr b"
  shows "\<exists>r. scanBatchWithLock w start nowNanos batchSize fullScan sm = Inr r"
proof -
  have "\<forall>n\<ge>1. \<exists>b. nextRetryAfterNanos (w\<lparr>msgsToWrite := []\<rparr>) n = Inr b"
    using assms by simp
  from scanLoop_no_panic [OF this]
  show ?thesis
    by (auto simp: scanBatchWithLock_def Let_def split: sum.splits prod.splits) (metis Inl_Inr_False)
qed

lemma scanElement_ready_call:
  assumes "scanElement w e nowNanos fullScan sm = Inr (c, w', sm')"
    and "sm' idx_processedWrite = sm idx_processedWrite + 1"
  shows "writeTimes (heap w' e) = writeTimes (heap w e) + 1 \<and>
         nextRetryAfterNanos w (int (writeTimes (heap w e)) + 1) = Inr (RetryAtNanos (heap w' e) - nowNanos)"
  using assms
  by (auto simp: scanElement_def Let_def incr_def IncWriteTimes_def WriteTimes_def
      SetRetryAtNanos_def RetryAtNanos_def add.commute
      split: if_splits prod.splits sum.splits)

text \<open>
  C10, as stated, fails at the smallest \<open>int\<close>: there write-times is below 1, and yet
  the read is in bounds, because \<open>writeTimes - 1\<close> wraps around to the largest \<open>int\<close>,
  which is not below the length of the table, so that the function reads the last entry.
\<close>

theorem C10_smallest_int_counterexample:
  "StaticRetryNanosFn [10, 20, 30] = Inr (staticRetryNanos [10, 20, 30]) \<and>
   (- (2 ^ 63) :: int) < 1 \<and>
   staticRetryNanos [10, 20, 30] (- (2 ^ 63)) = Inr 30"
  by (simp add: StaticRetryNanosFn_def staticRetryNanos_def sliceIndex_def)

text \<open>
  C10, amended. The function returned by \<open>StaticRetryNanosFn\<close> for a non-empty table reads
  the table at index write-times - 1, computed in 64 bits, or at the last index when that
  is not below the length. Over the 64-bit values of write-times it panics with an index
  out of range exactly for the values below 1 other than the smallest \<open>int\<close> (for
  write-times 0 the read is at index -1); at the smallest \<open>int\<close> the difference wraps
  around and the read is in bounds. The scan establishes write-times \<ge> 1 at its call: when
  the scan takes the ready branch for a message, the message's write count has been
  incremented, the retry function has been called at the incremented count, which is at
  least 1, and the message's retry time is the function's result plus the scan's time; so
  a batch of the scan never panics.
\<close>

theorem C10_static_retry_precondition:
  assumes "tbl \<noteq> []"
  shows "\<exists>f. StaticRetryNanosFn tbl = Inr f \<and>
           (\<forall>n\<ge>- (2 ^ 63). f n = Inl IndexOutOfRange \<longleftrightarrow> - (2 ^ 63) < n \<and> n < 1) \<and>
           f 0 = sliceIndex tbl (- 1) \<and>
           f (- (2 ^ 63)) = Inr (tbl ! nat (min (2 ^ 63 - 1) (int (length tbl) - 1))) \<and>
           (\<forall>w::messageWriter. nextRetryAfterNanos w = f \<longrightarrow>
              (\<forall>start nowNanos batchSize fullScan sm.
                 \<exists>r. scanBatchWithLock w start nowNanos batchSize fullScan sm = Inr r) \<and>
              (\<forall>e nowNanos fullScan sm c w' sm'.
                 scanElement w e nowNanos fullScan sm = Inr (c, w', sm') \<and>
                 sm' idx_processedWrite = sm idx_processedWrite + 1 \<longrightarrow>
                 writeTimes (heap w' e) = writeTimes (heap w e) + 1 \<and>
                 1 \<le> int (writeTimes (heap w e)) + 1 \<and>
                 f (int (writeTimes (heap w e)) + 1) = Inr (RetryAtNanos (heap w' e) - nowNanos)))"
proof -
  let ?f = "staticRetryNanos tbl"
  have f: "StaticRetryNanosFn tbl = Inr ?f"
    using assms by (simp add: StaticRetryNanosFn_def)
  have panic_iff: "\<forall>n\<ge>- (2 ^ 63). ?f n = Inl IndexOutOfRange \<longleftrightarrow> - (2 ^ 63) < n \<and> n < 1"
  proof (intro allI impI)
    fix n :: int
    assume lo: "- (2 ^ 63) \<le> n"
    consider (smallest) "n = - (2 ^ 63)" | (below) "- (2 ^ 63) < n" "n < 1" | (from_one) "1 \<le> n"
      using lo by linarith
    then show "?f n = Inl IndexOutOfRange \<longleftrightarrow> - (2 ^ 63) < n \<and> n < 1"
    proof cases
      case smallest
      then show ?thesis using staticRetryNanos_smallest_int [OF assms] by simp
    next
      case below
      then show ?thesis using staticRetryNanos_below_one [OF below assms] by simp
    next
      case from_one
      from staticRetryNanos_in_range [OF this assms] from_one show ?thesis by simp
    qed
  qed
  have at0: "?f 0 = sliceIndex tbl (- 1)"
    using assms by (simp add: staticRetryNanos_def Let_def)
  have atmin: "?f (- (2 ^ 63)) = Inr (tbl ! nat (min (2 ^ 63 - 1) (int (length tbl) - 1)))"
    by (rule staticRetryNanos_smallest_int [OF assms])
  have ok: "\<forall>n\<ge>1. \<exists>b. ?f n = Inr b"
    using staticRetryNanos_in_range [OF _ assms] by blast
  have scan: "\<forall>w::messageWriter. nextRetryAfterNanos w = ?f \<longrightarrow>
              (\<forall>start nowNanos batchSize fullScan sm.
                 \<exists>r. scanBatchWithLock w start nowNanos batchSize fullScan sm = Inr r) \<and>
              (\<forall>e nowNanos fullScan sm c w' sm'.
                 scanElement w e nowNanos fullScan sm = Inr (c, w', sm') \<and>
                 sm' idx_processedWrite = sm idx_processedWrite + 1 \<longrightarrow>
                 writeTimes (heap w' e) = writeTimes (heap w e) + 1 \<and>
                 1 \<le> int (writeTimes (heap w e)) + 1 \<and>
                 ?f (int (writeTimes (heap w e)) + 1) = Inr (RetryAtNanos (heap w' e) - nowNanos))"
  proof (intro allI impI)
    fix w :: messageWriter
    assume w: "nextRetryAfterNanos w = ?f"
    with ok have okw: "\<forall>n\<ge>1. \<exists>b. nextRetryAfterNanos w n = Inr b" by simp
    have a: "\<forall>start nowNanos batchSize fullScan sm.
                 \<exists>r. scanBatchWithLock w start nowNanos batchSize fullScan sm = Inr r"
      using scanBatchWithLock_no_panic [OF okw] by blast
    have b: "\<forall>e nowNanos fullScan sm c w' sm'.
                 scanElement w e nowNanos fullScan sm = Inr (c, w', sm') \<and>
                 sm' idx_processedWrite = sm idx_processedWrite + 1 \<longrightarrow>
                 writeTimes (heap w' e) = writeTimes (heap w e) + 1 \<and>
                 1 \<le> int (writeTimes (heap w e)) + 1 \<and>
                 ?f (int (writeTimes (heap w e)) + 1) = Inr (RetryAtNanos (heap w' e) - nowNanos)"
    proof (intro allI impI)
      fix e nowNanos fullScan sm c w' sm'
      assume h: "scanElement w e nowNanos fullScan sm = Inr (c, w', sm') \<and>
                 sm' idx_processedWrite = sm idx_processedWrite + 1"
      from scanElement_ready_call [OF conjunct1 [OF h] conjunct2 [OF h]] w
      show "writeTimes (heap w' e) = writeTimes (heap w e) + 1 \<and>
                 1 \<le> int (writeTimes (heap w e)) + 1 \<and>
                 ?f (int (writeTimes (heap w e)) + 1) = Inr (RetryAtNanos (heap w' e) - nowNanos)"
        by simp
    qed
    from a b show "(\<forall>start nowNanos batchSize fullScan sm.
                 \<exists>r. scanBatchWithLock w start nowNanos batchSize fullScan sm = Inr r) \<and>
              (\<forall>e nowNanos fullScan sm c w' sm'.
                 scanElement w e nowNanos fullScan sm = Inr (c, w', sm') \<and>
                 sm' idx_processedWrite = sm idx_processedWrite + 1 \<longrightarrow>
                 writeTimes (heap w' e) = writeTimes (heap w e) + 1 \<and>
                 1 \<le> int (writeTimes (heap w e)) + 1 \<and>
                 ?f (int (writeTimes (heap w e)) + 1) = Inr (RetryAtNanos (heap w' e) - nowNanos))"
      by (rule conjI)
  qed
  from f panic_iff at0 atmin scan show ?thesis by blast
qed

theorem C10_static_retry_precondition_witness:
  "StaticRetryNanosFn [40] = Inr (staticRetryNanos [40]) \<and>
   staticRetryNanos [40] 0 = Inl IndexOutOfRange \<and>
   staticRetryNanos [40] (- 5) = Inl IndexOutOfRange \<and>
   staticRetryNanos [40] (- (2 ^ 63)) = Inr 40 \<and>
   nextRetryAfterNanos ackedOnce = staticRetryNanos [40] \<and>
   writeTimes (heap ackedOnce 0) = 0 \<and>
   scanElement ackedOnce 0 60 True noMetrics = Inr (Continue, sentWriter, incr idx_processedWrite noMetrics) \<and>
   writeTimes (heap sentWriter 0) = 1 \<and>
   staticRetryNanos [40] 1 = Inr (RetryAtNanos (heap sentWriter 0) - 60)"
proof -
  have ne: "[40 :: int64] \<noteq> []" by simp
  from C10_static_retry_precondition [OF ne]
  obtain f where f: "StaticRetryNanosFn [40] = Inr f"
    and p: "\<forall>n\<ge>- (2 ^ 63). f n = Inl IndexOutOfRange \<longleftrightarrow> - (2 ^ 63) < n \<and> n < 1"
    and m: "f (- (2 ^ 63)) = Inr ([40] ! nat (min (2 ^ 63 - 1) (int (length [40 :: int64]) - 1)))"
    and s: "\<forall>w::messageWriter. nextRetryAfterNanos w = f \<longrightarrow>
              (\<forall>start nowNanos batchSize fullScan sm.
                 \<exists>r. scanBatchWithLock w start nowNanos batchSize fullScan sm = Inr r) \<and>
              (\<forall>e nowNanos fullScan sm c w' sm'.
                 scanElement w e nowNanos fullScan sm = Inr (c, w', sm') \<and>
                 sm' idx_processedWrite = sm idx_processedWrite + 1 \<longrightarrow>
                 writeTimes (heap w' e) = writeTimes (heap w e) + 1 \<and>
                 1 \<le> int (writeTimes (heap w e)) + 1 \<and>
                 f (int (writeTimes (heap w e)) + 1) = Inr (RetryAtNanos (heap w' e) - nowNanos))"
    by blast
  have g: "StaticRetryNanosFn [40] = Inr (staticRetryNanos [40])"
    by (simp add: StaticRetryNanosFn_def)
  with f have fe: "f = staticRetryNanos [40]" by simp
  have n: "nextRetryAfterNanos ackedOnce = f"
    unfolding fe by (simp add: ackedOnce_def writer_eval)
  have w0: "writeTimes (heap ackedOnce 0) = 0"
    by (simp add: ackedOnce_def writer_eval)
  have ev: "scanElement ackedOnce 0 60 True noMetrics = Inr (Continue, sentWriter, incr idx_processedWrite noMetrics)"
    by (simp add: sentWriter_def ackedOnce_def writer_eval)
  have c: "incr idx_processedWrite noMetrics idx_processedWrite = noMetrics idx_processedWrite + 1"
    by (simp add: incr_def)
  from s [rule_format, OF n, THEN conjunct2, rule_format, OF conjI [OF ev c]]
  have r: "writeTimes (heap sentWriter 0) = writeTimes (heap ackedOnce 0) + 1"
    "f (int (writeTimes (heap ackedOnce 0)) + 1) = Inr (RetryAtNanos (heap sentWriter 0) - 60)"
    by simp_all
  have z: "f 0 = Inl IndexOutOfRange" using p [rule_format, of 0] by simp
  have z5: "f (- 5) = Inl IndexOutOfRange" using p [rule_format, of "- 5"] by simp
  have zm: "f (- (2 ^ 63)) = Inr 40" using m by simp
  show ?thesis
    using g z z5 zm n w0 ev r unfolding fe by simp
qed

subsection \<open>Order of new writes in the queue\<close>

lemma scanMessageQueue_ackedOnce:
  "scanMessageQueue ackedOnce 2 sendOk 60 exampleClock 62
     = Some (Inr (scannedWriter, incr idx_processedWrite noMetrics))"
  by (simp add: scannedWriter_def sentWriter_def ackedOnce_def exampleClock_def writer_eval numeral_2_eq_2)

text \<open>
  C2, as stated, fails: a scan clears the last-new-write cursor, and the first admitted
  \<open>Write\<close> after it is pushed at the front of the queue. Message 1 is written and sent by
  a scan, and waits for its ack; the next \<open>Write\<close> puts message 2 in front of it.
\<close>

theorem C2_write_after_scan_counterexample:
  "queueIDs ackedOnce = [1] \<and>
   scanMessageQueue ackedOnce 2 sendOk 60 exampleClock 62
     = Some (Inr (scannedWriter, incr idx_processedWrite noMetrics)) \<and>
   queueIDs scannedWriter = [1] \<and>
   isValidWriteWithLock scannedWriter 70 \<and>
   queueIDs (Write scannedWriter 2 70) = [2, 1]"
proof -
  have "queueIDs ackedOnce = [1]"
    by (simp add: ackedOnce_def writer_eval)
  moreover have "queueIDs scannedWriter = [1]" "isValidWriteWithLock scannedWriter 70"
    "queueIDs (Write scannedWriter 2 70) = [2, 1]"
    by (simp_all add: scannedWriter_def sentWriter_def ackedOnce_def writer_eval)
  ultimately show ?thesis using scanMessageQueue_ackedOnce by simp
qed

lemma Write_isValidWriteWithLock:
  "isValidWriteWithLock (Write w rm nowNanos) t = isValidWriteWithLock w t"
proof (cases "isValidWriteWithLock w nowNanos")
  case True
  show ?thesis unfolding Write_admitted_state [OF True] by (simp add: isValidWriteWithLock_def)
next
  case False
  show ?thesis unfolding Write_rejected_state [OF False] by (simp add: isValidWriteWithLock_def)
qed

lemma insertAfter_last:
  "distinct blk \<Longrightarrow> blk \<noteq> [] \<Longrightarrow> insertAfter v (last blk) (blk @ old) = blk @ v # old"
  by (induction blk) auto

lemma frontBlock_Write_rejected:
  assumes "frontBlock w blk old" "\<not> isValidWriteWithLock w nowNanos"
  shows "frontBlock (Write w rm nowNanos) blk old"
    and "queueIDs (Write w rm nowNanos) = queueIDs w"
    and "msgID (Write w rm nowNanos) = msgID w"
proof -
  have fresh: "nextFree (mPool w) \<notin> set (queue w)"
    using assms(1) by (auto simp: frontBlock_def)
  show "frontBlock (Write w rm nowNanos) blk old"
    using assms(1) unfolding Write_rejected_state [OF assms(2)]
    by (auto simp: frontBlock_def intro: less_SucI)
  show "queueIDs (Write w rm nowNanos) = queueIDs w"
    using fresh unfolding Write_rejected_state [OF assms(2)]
    by (auto simp: queueIDs_def)
  show "msgID (Write w rm nowNanos) = msgID w"
    unfolding Write_rejected_state [OF assms(2)] by simp
qed

lemma frontBlock_Write_admitted:
  assumes "frontBlock w blk old" "isValidWriteWithLock w nowNanos"
  shows "frontBlock (Write w rm nowNanos) (blk @ [nextFree (mPool w)]) old"
    and "queueIDs (Write w rm nowNanos)
         = map (\<lambda>a. id' (Metadata (heap w a))) blk @ (msgID w + 1) # map (\<lambda>a. id' (Metadata (heap w a))) old"
    and "msgID (Write w rm nowNanos) = msgID w + 1"
proof -
  let ?a = "nextFree (mPool w)"
  have q: "queue w = blk @ old" and d: "distinct blk"
    and l: "lastNewWrite w = (if blk = [] then None else Some (last blk))"
    and b: "\<forall>x\<in>set (queue w). x < ?a"
    using assms(1) by (auto simp: frontBlock_def)
  have fresh: "?a \<notin> set blk" "?a \<notin> set old" using b q by auto
  have q': "queue (Write w rm nowNanos) = blk @ ?a # old"
  proof (cases "blk = []")
    case True
    then show ?thesis unfolding Write_admitted_state [OF assms(2)] using q l by simp
  next
    case False
    then have "last blk \<in> set (queue w)" using q by simp
    then show ?thesis unfolding Write_admitted_state [OF assms(2)]
      using q l False d by (simp add: InsertAfter_def insertAfter_last)
  qed
  have l': "lastNewWrite (Write w rm nowNanos) = Some ?a"
  proof (cases "blk = []")
    case True
    then show ?thesis unfolding Write_admitted_state [OF assms(2)] using l by simp
  next
    case False
    then have "last blk \<in> set (queue w)" using q by simp
    then show ?thesis unfolding Write_admitted_state [OF assms(2)]
      using l False by (simp add: InsertAfter_def)
  qed
  have n': "nextFree (mPool (Write w rm nowNanos)) = ?a + 1"
    unfolding Write_admitted_state [OF assms(2)] by simp
  show "frontBlock (Write w rm nowNanos) (blk @ [?a]) old"
    unfolding frontBlock_def using q' l' n' d fresh b q by (auto intro: less_SucI)
  have h: "\<And>x. x \<noteq> ?a \<Longrightarrow> heap (Write w rm nowNanos) x = heap w x"
    unfolding Write_admitted_state [OF assms(2)] by simp
  have hn: "id' (Metadata (heap (Write w rm nowNanos) ?a)) = msgID w + 1"
    unfolding Write_admitted_state [OF assms(2)] by (simp add: Set_def Metadata_def)
  have hb: "heap (Write w rm nowNanos) x = heap w x" if "x \<in> set blk" for x
    using that fresh(1) h [of x] by auto
  have ho: "heap (Write w rm nowNanos) x = heap w x" if "x \<in> set old" for x
    using that fresh(2) h [of x] by auto
  have "map (\<lambda>a. id' (Metadata (heap (Write w rm nowNanos) a))) blk = map (\<lambda>a. id' (Metadata (heap w a))) blk"
    by (rule map_cong [OF refl]) (simp add: hb)
  moreover have "map (\<lambda>a. id' (Metadata (heap (Write w rm nowNanos) a))) old = map (\<lambda>a. id' (Metadata (heap w a))) old"
    by (rule map_cong [OF refl]) (simp add: ho)
  ultimately show "queueIDs (Write w rm nowNanos)
         = map (\<lambda>a. id' (Metadata (heap w a))) blk @ (msgID w + 1) # map (\<lambda>a. id' (Metadata (heap w a))) old"
    unfolding queueIDs_def q' using hn by simp
  show "msgID (Write w rm nowNanos) = msgID w + 1"
    unfolding Write_admitted_state [OF assms(2)] by simp
qed

lemma newIDs_Suc: "newIDs w (Suc n) = (msgID w + 1) # map (\<lambda>k. msgID w + 1 + of_nat (Suc k)) [0..<n]"
proof -
  have "[0..<Suc n] = 0 # map Suc [0..<n]"
    by (simp add: upt_conv_Cons map_Suc_upt del: upt_Suc)
  then show ?thesis by (simp add: newIDs_def comp_def algebra_simps del: upt_Suc)
qed

lemma WriteAll_frontBlock:
  assumes "frontBlock w blk old"
  shows "queueIDs (WriteAll w ws)
         = map (\<lambda>a. id' (Metadata (heap w a))) blk @ newIDs w (length (admitted w ws))
           @ map (\<lambda>a. id' (Metadata (heap w a))) old"
  using assms
proof (induction ws arbitrary: w blk)
  case Nil
  then show ?case by (simp add: queueIDs_def frontBlock_def admitted_def newIDs_def)
next
  case (Cons p ws)
  obtain rm t where p: "p = (rm, t)" by (cases p)
  have adm: "admitted (Write w rm t) ws = admitted w ws"
    by (simp add: admitted_def Write_isValidWriteWithLock)
  show ?case
  proof (cases "isValidWriteWithLock w t")
    case False
    note r = frontBlock_Write_rejected [OF Cons.prems False, of rm]
    have ids: "queueIDs (Write w rm t) = queueIDs w" by (rule r(2))
    have "queueIDs (WriteAll (Write w rm t) ws)
          = map (\<lambda>a. id' (Metadata (heap (Write w rm t) a))) blk @ newIDs (Write w rm t) (length (admitted (Write w rm t) ws))
            @ map (\<lambda>a. id' (Metadata (heap (Write w rm t) a))) old"
      by (rule Cons.IH [OF r(1)])
    moreover have "map (\<lambda>a. id' (Metadata (heap (Write w rm t) a))) blk @ map (\<lambda>a. id' (Metadata (heap (Write w rm t) a))) old
          = map (\<lambda>a. id' (Metadata (heap w a))) blk @ map (\<lambda>a. id' (Metadata (heap w a))) old"
      using ids r(1) Cons.prems by (simp add: queueIDs_def frontBlock_def)
    then have "map (\<lambda>a. id' (Metadata (heap (Write w rm t) a))) blk = map (\<lambda>a. id' (Metadata (heap w a))) blk
          \<and> map (\<lambda>a. id' (Metadata (heap (Write w rm t) a))) old = map (\<lambda>a. id' (Metadata (heap w a))) old"
      by (simp add: append_eq_append_conv)
    moreover have "newIDs (Write w rm t) = newIDs w"
      using r(3) by (simp add: newIDs_def fun_eq_iff)
    ultimately show ?thesis using p False adm by (simp add: admitted_def)
  next
    case True
    note a = frontBlock_Write_admitted [OF Cons.prems True, of rm]
    have "queueIDs (WriteAll (Write w rm t) ws)
          = map (\<lambda>a. id' (Metadata (heap (Write w rm t) a))) (blk @ [nextFree (mPool w)])
            @ newIDs (Write w rm t) (length (admitted (Write w rm t) ws))
            @ map (\<lambda>a. id' (Metadata (heap (Write w rm t) a))) old"
      by (rule Cons.IH [OF a(1)])
    moreover have "map (\<lambda>a. id' (Metadata (heap (Write w rm t) a))) (blk @ [nextFree (mPool w)])
            @ map (\<lambda>a. id' (Metadata (heap (Write w rm t) a))) old
          = (map (\<lambda>a. id' (Metadata (heap w a))) blk @ [msgID w + 1]) @ map (\<lambda>a. id' (Metadata (heap w a))) old"
      using a(2) a(1) by (simp add: queueIDs_def frontBlock_def)
    then have "map (\<lambda>a. id' (Metadata (heap (Write w rm t) a))) (blk @ [nextFree (mPool w)])
            = map (\<lambda>a. id' (Metadata (heap w a))) blk @ [msgID w + 1]
          \<and> map (\<lambda>a. id' (Metadata (heap (Write w rm t) a))) old = map (\<lambda>a. id' (Metadata (heap w a))) old"
      by (subst (asm) append_eq_append_conv) simp_all
    moreover have "newIDs (Write w rm t) n = map (\<lambda>k. msgID w + 1 + of_nat (Suc k)) [0..<n]" for n
      using a(3) by (simp add: newIDs_def)
    ultimately show ?thesis using p True adm by (simp add: admitted_def newIDs_Suc)
  qed
qed

lemma shrinks_refl: "shrinks w w"
  by (simp add: shrinks_def)

lemma shrinks_trans: "shrinks w w1 \<Longrightarrow> shrinks w1 w2 \<Longrightarrow> shrinks w w2"
  by (auto simp: shrinks_def)

lemma shrinks_allocated: "allocated w \<Longrightarrow> shrinks w w' \<Longrightarrow> allocated w'"
  by (auto simp: shrinks_def allocated_def)

lemma shrinks_acks_ack: "shrinks w (snd (acks_ack w mt))"
  by (simp add: acks_ack_def Let_def shrinks_def split: option.splits)

lemma shrinks_acks_remove: "shrinks w (acks_remove w mt)"
  by (simp add: acks_remove_def shrinks_def split: option.splits)

lemma shrinks_removeFromQueueWithLock: "shrinks w (removeFromQueueWithLock w e)"
proof -
  have "set (remove1 e (queue w)) \<subseteq> set (queue w)" by (rule set_remove1_subset)
  then show ?thesis
    by (simp add: removeFromQueueWithLock_def close_def Close_message_def mPool_Put_def DecRef_def
        Remove_def Let_def shrinks_def split: option.splits)
qed

lemma shrinks_scanElement:
  assumes "scanElement w e nowNanos fullScan sm = Inr (c, w', sm')"
  shows "shrinks w w'"
proof -
  let ?m = "heap w e"
  have ack: "shrinks w (removeFromQueueWithLock (snd (acks_ack w (Metadata ?m))) e)"
    by (rule shrinks_trans [OF shrinks_acks_ack shrinks_removeFromQueueWithLock])
  have rem: "shrinks w (removeFromQueueWithLock (acks_remove w (Metadata ?m)) e)"
    by (rule shrinks_trans [OF shrinks_acks_remove shrinks_removeFromQueueWithLock])
  have plain: "shrinks w (removeFromQueueWithLock w e)"
    by (rule shrinks_removeFromQueueWithLock)
  have ready: "shrinks w (w\<lparr>heap := h, msgsToWrite := ms\<rparr>)" for h ms
    by (simp add: shrinks_def)
  show ?thesis
    using assms ack rem plain ready shrinks_refl [of w]
    by (auto simp: scanElement_def Let_def split: if_splits prod.splits sum.splits)
qed

lemma shrinks_scanLoop:
  assumes "scanLoop nowNanos batchSize fullScan es iterated next' w sm = Inr (n, w', sm')"
  shows "shrinks w w'"
  using assms
proof (induction es arbitrary: iterated next' w sm)
  case Nil
  then show ?case by (simp add: shrinks_refl)
next
  case (Cons e es)
  show ?case
  proof (cases "iterated + 1 > batchSize")
    case True
    with Cons.prems show ?thesis by (simp add: shrinks_refl)
  next
    case False
    show ?thesis
    proof (cases "scanElement w e nowNanos fullScan sm")
      case (Inl p)
      with Cons.prems False show ?thesis by simp
    next
      case (Inr r)
      obtain c w1 sm1 where r: "r = (c, w1, sm1)" by (cases r)
      have s1: "shrinks w w1"
        using shrinks_scanElement Inr r by simp
      show ?thesis
      proof (cases c)
        case Break
        with Cons.prems False Inr r s1 show ?thesis by simp
      next
        case Continue
        with Cons.prems False Inr r
        have "scanLoop nowNanos batchSize fullScan es (iterated + 1) (Front es) w1 sm1 = Inr (n, w', sm')"
          by simp
        from shrinks_trans [OF s1 Cons.IH [OF this]] show ?thesis .
      qed
    qed
  qed
qed

lemma shrinks_scanBatchWithLock:
  assumes "scanBatchWithLock w start nowNanos batchSize fullScan sm = Inr (n, msgs, w', sm')"
  shows "shrinks w w'"
proof -
  from assms obtain es where
    "scanLoop nowNanos batchSize fullScan es 0 None (w\<lparr>msgsToWrite := []\<rparr>) sm = Inr (n, w', sm')"
    by (auto simp: scanBatchWithLock_def Let_def split: sum.splits prod.splits)
  from shrinks_scanLoop [OF this] show ?thesis by (simp add: shrinks_def)
qed

lemma shrinks_scanBatches:
  assumes "scanBatches bound wr clock fullScan k e beforeBatchNanos skipWrites w sm = Some (Inr (w', sm'))"
  shows "shrinks w w'"
  using assms
proof (induction bound arbitrary: k e beforeBatchNanos skipWrites w sm)
  case 0
  then show ?case by (simp add: shrinks_refl split: if_splits)
next
  case (Suc bound)
  show ?case
  proof (cases "e = None")
    case True
    with Suc.prems show ?thesis by (simp add: shrinks_refl)
  next
    case False
    show ?thesis
    proof (cases "scanBatchWithLock w e beforeBatchNanos (MessageQueueScanBatchSize (opts w)) fullScan sm")
      case (Inl p)
      with Suc.prems False show ?thesis by simp
    next
      case (Inr r)
      obtain e1 msgs w1 sm1 where r: "r = (e1, msgs, w1, sm1)" by (cases r)
      have s1: "shrinks w w1"
        using shrinks_scanBatchWithLock Inr r by simp
      from Suc.prems False Inr r s1 shrinks_trans [OF s1 Suc.IH] show ?thesis
        by (auto split: if_splits)
    qed
  qed
qed

lemma shrinks_scanMessageQueue:
  assumes "scanMessageQueue w bound wr beforeScan clock afterScan = Some (Inr (w', sm'))"
  shows "shrinks (w\<lparr>lastNewWrite := None\<rparr>) w'"
proof -
  from assms obtain fullScan w2 where
    s: "scanBatches bound wr clock fullScan 0 (Front (queue w)) beforeScan False
          (w\<lparr>lastNewWrite := None\<rparr>) noMetrics = Some (Inr (w2, sm'))"
    and w': "w' = (if fullScan then w2\<lparr>nextFullScan := Some (afterScan + MessageQueueFullScanInterval (opts w2))\<rparr> else w2)"
    by (auto simp: scanMessageQueue_def Let_def split: option.splits sum.splits prod.splits)
  have "shrinks (w\<lparr>lastNewWrite := None\<rparr>) w2" by (rule shrinks_scanBatches [OF s])
  then show ?thesis unfolding w' by (simp add: shrinks_def)
qed

lemma allocated_Write: "allocated w \<Longrightarrow> allocated (Write w rm nowNanos)"
proof (cases "isValidWriteWithLock w nowNanos")
  case False
  assume "allocated w"
  then show ?thesis unfolding Write_rejected_state [OF False]
    by (auto simp: allocated_def intro: less_SucI)
next
  case True
  assume a: "allocated w"
  have "set (queue (Write w rm nowNanos)) \<subseteq> insert (nextFree (mPool w)) (set (queue w))"
    unfolding Write_admitted_state [OF True]
    by (auto simp: InsertAfter_def set_insertAfter split: option.splits)
  moreover have "nextFree (mPool (Write w rm nowNanos)) = Suc (nextFree (mPool w))"
    unfolding Write_admitted_state [OF True] by simp
  ultimately show ?thesis using a by (auto simp: allocated_def intro: less_SucI)
qed

lemma reachable_allocated: "reachable w \<Longrightarrow> allocated w"
proof (induction rule: reachable.induct)
  case (reach_new s os)
  show ?case by (simp add: allocated_def newMessageWriter_def)
next
  case (reach_Write w rm nowNanos)
  then show ?case by (simp add: allocated_Write)
next
  case (reach_Ack w mt)
  have "snd (Ack w mt) = snd (acks_ack w mt)" by (simp add: Ack_def split: prod.splits)
  with shrinks_allocated [OF reach_Ack.IH shrinks_acks_ack, of mt] show ?case by simp
next
  case (reach_scanBatch w start nowNanos batchSize fullScan sm next' msgs w' sm')
  from shrinks_allocated [OF reach_scanBatch.IH shrinks_scanBatchWithLock [OF reach_scanBatch.hyps(2)]]
  show ?case .
next
  case (reach_scan w bound wr beforeScan clock afterScan w' sm')
  have "allocated (w\<lparr>lastNewWrite := None\<rparr>)"
    using reach_scan.IH by (simp add: allocated_def)
  from shrinks_allocated [OF this shrinks_scanMessageQueue [OF reach_scan.hyps(2)]]
  show ?case .
qed (simp_all add: allocated_def Init_def SetCutoffNanos_def SetCutoverNanos_def
      SetMessageTTLNanos_def AddConsumerWriter_def RemoveConsumerWriter_def Let_def)


lemma scanMessageQueue_clears_cursor:
  assumes "scanMessageQueue w bound wr beforeScan clock afterScan = Some (Inr (w', sm'))"
  shows "lastNewWrite w' = None"
  using shrinks_scanMessageQueue [OF assms] by (simp add: shrinks_def)

text \<open>
  C2, amended. New writes form a block at the front of the queue, in their order: in a
  state of a run whose last-new-write cursor is clear (a new writer, or a writer at the
  start of a scan or after a scan), after any sequence of \<open>Write\<close> calls the queue
  holds, from the front, the messages of the admitted calls in the order of the calls
  (they carry the next ids in order), followed by the messages that were in the queue
  before. So of two admitted writes A before B with no scan start between them, A's
  element precedes B's; the messages queued before the scan start follow both.
\<close>

theorem C2_new_writes_front_block:
  assumes "reachable w" and "lastNewWrite w = None"
  shows "queueIDs (WriteAll w ws) = newIDs w (length (admitted w ws)) @ queueIDs w"
proof -
  have "allocated w" using assms(1) by (rule reachable_allocated)
  then have "frontBlock w [] (queue w)"
    using assms(2) by (simp add: frontBlock_def allocated_def)
  from WriteAll_frontBlock [OF this, of ws] show ?thesis
    by (simp add: queueIDs_def)
qed

theorem C2_new_writes_front_block_witness:
  "reachable scannedWriter \<and> lastNewWrite scannedWriter = None \<and> queueIDs scannedWriter = [1] \<and>
   queueIDs (WriteAll scannedWriter [(2, 70), (3, 71), (4, 72)]) = [2, 3, 4, 1]"
proof -
  have "reachable ackedOnce"
    unfolding ackedOnce_def exampleWriter_def
    by (intro reach_Write reach_AddConsumerWriter reach_new)
  then have r: "reachable scannedWriter"
    using scanMessageQueue_ackedOnce by (rule reach_scan)
  have l: "lastNewWrite scannedWriter = None"
    by (simp add: scannedWriter_def)
  have q: "queueIDs scannedWriter = [1]"
    by (simp add: scannedWriter_def sentWriter_def ackedOnce_def writer_eval)
  have a: "admitted scannedWriter [(2, 70), (3, 71), (4, 72)] = [(2, 70), (3, 71), (4, 72)]"
    by (simp add: admitted_def scannedWriter_def sentWriter_def ackedOnce_def writer_eval)
  have m: "msgID scannedWriter = 1"
    by (simp add: scannedWriter_def sentWriter_def ackedOnce_def writer_eval)
  have n: "newIDs scannedWriter (Suc (Suc (Suc 0))) = [2, 3, 4]"
    by (simp add: newIDs_def m)
  show ?thesis
    using C2_new_writes_front_block [OF r l, of "[(2, 70), (3, 71), (4, 72)]"] r l q a n
    by simp
qed

subsection \<open>The size of the ack table\<close>

lemma accounted_frame:
  "acks w' = acks w \<Longrightarrow> msgID w' = msgID w \<Longrightarrow> hist w' = hist w \<Longrightarrow> accounted w' = accounted w"
  by (simp add: accounted_def)

lemma accounted_new: "accounted (newMessageWriter s os)"
  by (simp add: accounted_def newMessageWriter_def)

lemma unat_next_id:
  assumes "Suc n < 2 ^ 64"
  shows "unat ((of_nat n :: uint64) + 1) = Suc n"
proof -
  have "(of_nat n :: uint64) + 1 = of_nat (Suc n)" by simp
  then have "unat ((of_nat n :: uint64) + 1) = Suc n mod 2 ^ 64"
    by (simp only: unat_of_nat) simp
  with assms show ?thesis by simp
qed

lemma accounted_Write:
  assumes "accounted w"
  shows "accounted (Write w rm nowNanos)"
proof (cases "isValidWriteWithLock w nowNanos")
  case False
  show ?thesis
    using assms unfolding Write_rejected_state [OF False] by (simp add: accounted_def)
next
  case True
  let ?n = "admittedWrites (hist w)"
  have f: "acks (Write w rm nowNanos) = (acks w)(msgID w + 1 \<mapsto> nextFree (mPool w))"
    "msgID (Write w rm nowNanos) = msgID w + 1"
    "hist (Write w rm nowNanos) = (hist w)\<lparr>admittedWrites := ?n + 1\<rparr>"
    unfolding Write_admitted_state [OF True] by simp_all
  show ?thesis
    unfolding accounted_def f
  proof (intro impI)
    assume "admittedWrites ((hist w)\<lparr>admittedWrites := ?n + 1\<rparr>) < 2 ^ 64"
    then have b: "Suc ?n < 2 ^ 64" by simp
    then have "?n < 2 ^ 64" by simp
    with assms have m: "msgID w = of_nat ?n"
      and d: "\<forall>k\<in>dom (acks w). 1 \<le> unat k \<and> unat k \<le> ?n"
      and c: "card (dom (acks w)) + ackTransitions (hist w) + dropRemovals (hist w) = ?n"
      by (simp_all add: accounted_def)
    have u: "unat (msgID w + 1) = Suc ?n"
      unfolding m by (rule unat_next_id [OF b])
    have fresh: "msgID w + 1 \<notin> dom (acks w)"
    proof
      assume "msgID w + 1 \<in> dom (acks w)"
      with d have "unat (msgID w + 1) \<le> ?n" by blast
      with u show False by simp
    qed
    have card: "card (dom ((acks w)(msgID w + 1 \<mapsto> nextFree (mPool w)))) = Suc (card (dom (acks w)))"
      using fresh by simp
    have d': "\<forall>k\<in>dom ((acks w)(msgID w + 1 \<mapsto> nextFree (mPool w))). 1 \<le> unat k \<and> unat k \<le> ?n + 1"
      using d u by (auto intro: le_SucI)
    show "msgID w + 1 = of_nat (admittedWrites ((hist w)\<lparr>admittedWrites := ?n + 1\<rparr>)) \<and>
          (\<forall>k\<in>dom ((acks w)(msgID w + 1 \<mapsto> nextFree (mPool w))).
              1 \<le> unat k \<and> unat k \<le> admittedWrites ((hist w)\<lparr>admittedWrites := ?n + 1\<rparr>)) \<and>
          card (dom ((acks w)(msgID w + 1 \<mapsto> nextFree (mPool w)))) +
            ackTransitions ((hist w)\<lparr>admittedWrites := ?n + 1\<rparr>) +
            dropRemovals ((hist w)\<lparr>admittedWrites := ?n + 1\<rparr>)
          = admittedWrites ((hist w)\<lparr>admittedWrites := ?n + 1\<rparr>)"
      using m d' card c by simp
  qed
qed

lemma card_dom_remove:
  fixes m :: "uint64 \<rightharpoonup> addr"
  assumes "m k = Some a"
  shows "Suc (card (dom (m(k := None)))) = card (dom m)"
proof -
  have "k \<in> dom m" using assms by blast
  moreover have "finite (dom m)" by simp
  ultimately have "card (dom m - {k}) = card (dom m) - 1" "0 < card (dom m)"
    by (simp_all add: card_gt_0_iff) blast
  then show ?thesis by simp
qed

lemma accounted_acks_ack:
  assumes "accounted w"
  shows "accounted (snd (acks_ack w mt))"
proof (cases "acks w (id' mt)")
  case None
  then show ?thesis using assms by (simp add: acks_ack_def)
next
  case (Some a)
  from card_dom_remove [of "acks w" "id' mt" a, OF Some] assms Some show ?thesis
    by (auto simp: acks_ack_def Let_def accounted_def)
qed

lemma accounted_acks_remove:
  assumes "accounted w"
  shows "accounted (acks_remove w mt)"
proof (cases "acks w (id' mt)")
  case None
  then show ?thesis using assms by (simp add: acks_remove_def)
next
  case (Some a)
  from card_dom_remove [of "acks w" "id' mt" a, OF Some] assms Some show ?thesis
    by (auto simp: acks_remove_def accounted_def)
qed

lemma accounted_close: "accounted (close w a) = accounted w"
  by (rule accounted_frame)
    (simp_all add: close_def Close_message_def mPool_Put_def DecRef_def Let_def split: option.splits)

lemma accounted_removeFromQueueWithLock: "accounted (removeFromQueueWithLock w e) = accounted w"
  by (simp add: removeFromQueueWithLock_def accounted_close) (simp add: accounted_def)

lemma accounted_Ack: "accounted w \<Longrightarrow> accounted (snd (Ack w mt))"
proof -
  assume a: "accounted w"
  have "snd (Ack w mt) = snd (acks_ack w mt)"
    by (simp add: Ack_def split: prod.splits)
  with accounted_acks_ack [OF a, of mt] show ?thesis by simp
qed

lemma accounted_scanElement:
  assumes "accounted w" "scanElement w e nowNanos fullScan sm = Inr (c, w', sm')"
  shows "accounted w'"
proof -
  let ?m = "heap w e"
  have ack: "accounted (removeFromQueueWithLock (snd (acks_ack w (Metadata ?m))) e)"
    using accounted_acks_ack [OF assms(1)] by (simp add: accounted_removeFromQueueWithLock)
  have rem: "accounted (removeFromQueueWithLock (acks_remove w (Metadata ?m)) e)"
    using accounted_acks_remove [OF assms(1)] by (simp add: accounted_removeFromQueueWithLock)
  have plain: "accounted (removeFromQueueWithLock w e)"
    using assms(1) by (simp add: accounted_removeFromQueueWithLock)
  have ready: "accounted (w\<lparr>heap := h, msgsToWrite := ms\<rparr>)" for h ms
    using assms(1) by (simp add: accounted_def)
  show ?thesis
    using assms(2) ack rem plain ready assms(1)
    by (auto simp: scanElement_def Let_def split: if_splits prod.splits sum.splits)
qed


lemma accounted_scanLoop:
  assumes "accounted w"
    and "scanLoop nowNanos batchSize fullScan es iterated next' w sm = Inr (n, w', sm')"
  shows "accounted w'"
  using assms
proof (induction es arbitrary: iterated next' w sm)
  case Nil
  then show ?case by simp
next
  case (Cons e es)
  show ?case
  proof (cases "iterated + 1 > batchSize")
    case True
    with Cons.prems show ?thesis by simp
  next
    case False
    show ?thesis
    proof (cases "scanElement w e nowNanos fullScan sm")
      case (Inl p)
      with Cons.prems(2) False show ?thesis by simp
    next
      case (Inr r)
      obtain c w1 sm1 where r: "r = (c, w1, sm1)" by (cases r)
      have a1: "accounted w1"
        using accounted_scanElement [OF Cons.prems(1)] Inr r by simp
      show ?thesis
      proof (cases c)
        case Break
        with Cons.prems(2) False Inr r a1 show ?thesis by simp
      next
        case Continue
        with Cons.prems(2) False Inr r
        have "scanLoop nowNanos batchSize fullScan es (iterated + 1) (Front es) w1 sm1 = Inr (n, w', sm')"
          by simp
        from Cons.IH [OF a1 this] show ?thesis .
      qed
    qed
  qed
qed

lemma accounted_scanBatchWithLock:
  assumes "accounted w"
    and "scanBatchWithLock w start nowNanos batchSize fullScan sm = Inr (n, msgs, w', sm')"
  shows "accounted w'"
proof -
  have a0: "accounted (w\<lparr>msgsToWrite := []\<rparr>)"
    using assms(1) by (simp add: accounted_def)
  from assms(2) obtain es where
    "scanLoop nowNanos batchSize fullScan es 0 None (w\<lparr>msgsToWrite := []\<rparr>) sm = Inr (n, w', sm')"
    by (auto simp: scanBatchWithLock_def Let_def split: sum.splits prod.splits)
  from accounted_scanLoop [OF a0 this] show ?thesis .
qed

lemma accounted_scanBatches:
  assumes "accounted w"
    and "scanBatches bound write clock fullScan k e beforeBatchNanos skipWrites w sm = Some (Inr (w', sm'))"
  shows "accounted w'"
  using assms
proof (induction bound arbitrary: k e beforeBatchNanos skipWrites w sm)
  case 0
  then show ?case by (simp split: if_splits)
next
  case (Suc bound)
  show ?case
  proof (cases "e = None")
    case True
    with Suc.prems show ?thesis by simp
  next
    case False
    show ?thesis
    proof (cases "scanBatchWithLock w e beforeBatchNanos (MessageQueueScanBatchSize (opts w)) fullScan sm")
      case (Inl p)
      with Suc.prems(2) False show ?thesis by simp
    next
      case (Inr r)
      obtain e1 msgs w1 sm1 where r: "r = (e1, msgs, w1, sm1)" by (cases r)
      have a1: "accounted w1"
        using accounted_scanBatchWithLock [OF Suc.prems(1)] Inr r by simp
      from Suc.prems(2) False Inr r a1 Suc.IH [OF a1] show ?thesis
        by (auto split: if_splits)
    qed
  qed
qed

lemma accounted_scanMessageQueue:
  assumes "accounted w"
    and "scanMessageQueue w bound write beforeScan clock afterScan = Some (Inr (w', sm'))"
  shows "accounted w'"
proof -
  have a0: "accounted (w\<lparr>lastNewWrite := None\<rparr>)"
    using assms(1) by (simp add: accounted_def)
  from assms(2) obtain fullScan w2 where
    s: "scanBatches bound write clock fullScan 0 (Front (queue w)) beforeScan False
          (w\<lparr>lastNewWrite := None\<rparr>) noMetrics = Some (Inr (w2, sm'))"
    and w': "w' = (if fullScan then w2\<lparr>nextFullScan := Some (afterScan + MessageQueueFullScanInterval (opts w2))\<rparr> else w2)"
    by (auto simp: scanMessageQueue_def Let_def split: option.splits sum.splits prod.splits)
  have "accounted w2" by (rule accounted_scanBatches [OF a0 s])
  then show ?thesis unfolding w' by (simp add: accounted_def)
qed

lemma reachable_accounted: "reachable w \<Longrightarrow> accounted w"
proof (induction rule: reachable.induct)
  case (reach_new s os)
  show ?case by (rule accounted_new)
next
  case (reach_Write w rm nowNanos)
  then show ?case by (simp add: accounted_Write)
next
  case (reach_Ack w mt)
  then show ?case by (simp add: accounted_Ack)
next
  case (reach_scanBatch w start nowNanos batchSize fullScan sm next' msgs w' sm')
  from accounted_scanBatchWithLock [OF reach_scanBatch.IH reach_scanBatch.hyps(2)] show ?case .
next
  case (reach_scan w bound wr beforeScan clock afterScan w' sm')
  from accounted_scanMessageQueue [OF reach_scan.IH reach_scan.hyps(2)] show ?case .
qed (simp_all add: accounted_def Init_def SetCutoffNanos_def SetCutoverNanos_def
      SetMessageTTLNanos_def AddConsumerWriter_def RemoveConsumerWriter_def Let_def)

text \<open>
  C5. \<open>QueueSize\<close> is the size of the ack table, and in every state of a run that size
  equals the number of \<open>Write\<close> calls that passed admission minus the number of ack-true
  transitions (calls of \<open>acks.ack\<close> that returned true: by \<open>Ack\<close>, and by the scan for
  a closed writer or an expired message) minus the number of entries removed by the
  scan's drop handling. The hypothesis on the number of admitted writes says that the
  64-bit id counter has not wrapped around.
\<close>

theorem C5_QueueSize_accounting:
  "QueueSize w = card (dom (acks w)) \<and>
   (reachable w \<and> admittedWrites (hist w) < 2 ^ 64 \<longrightarrow>
      int (QueueSize w)
        = int (admittedWrites (hist w)) - int (ackTransitions (hist w)) - int (dropRemovals (hist w)))"
proof (intro conjI impI)
  show q: "QueueSize w = card (dom (acks w))"
    by (simp add: QueueSize_def acks_size_def)
  assume a: "reachable w \<and> admittedWrites (hist w) < 2 ^ 64"
  then have "accounted w" by (simp add: reachable_accounted)
  with a have "card (dom (acks w)) + ackTransitions (hist w) + dropRemovals (hist w)
               = admittedWrites (hist w)"
    by (simp add: accounted_def)
  then show "int (QueueSize w)
        = int (admittedWrites (hist w)) - int (ackTransitions (hist w)) - int (dropRemovals (hist w))"
    unfolding q by linarith
qed

theorem C5_QueueSize_accounting_witness:
  "reachable twoWritesOneAck \<and>
   admittedWrites (hist twoWritesOneAck) = 2 \<and>
   ackTransitions (hist twoWritesOneAck) = 1 \<and>
   dropRemovals (hist twoWritesOneAck) = 0 \<and>
   dom (acks twoWritesOneAck) = {2} \<and>
   QueueSize twoWritesOneAck = 1"
proof -
  have r: "reachable twoWritesOneAck"
    unfolding twoWritesOneAck_def ackedOnce_def exampleWriter_def
    by (intro reach_Ack reach_Write reach_AddConsumerWriter reach_new)
  have h: "admittedWrites (hist twoWritesOneAck) = 2"
    "ackTransitions (hist twoWritesOneAck) = 1"
    "dropRemovals (hist twoWritesOneAck) = 0"
    by (simp_all add: twoWritesOneAck_def ackedOnce_def meta1_def writer_eval)
  have d: "dom (acks twoWritesOneAck) = {2}"
    by (simp add: twoWritesOneAck_def ackedOnce_def meta1_def writer_eval)
  have b: "admittedWrites (hist twoWritesOneAck) < 2 ^ 64"
    unfolding h by simp
  from C5_QueueSize_accounting [of twoWritesOneAck] r b h
  have "QueueSize twoWritesOneAck = 1" by simp
  with r h d show ?thesis by simp
qed

subsection \<open>Close\<close>

lemma sameLifecycle_refl: "sameLifecycle w w"
  by (simp add: sameLifecycle_def)

lemma sameLifecycle_trans: "sameLifecycle w w1 \<Longrightarrow> sameLifecycle w1 w2 \<Longrightarrow> sameLifecycle w w2"
  by (simp add: sameLifecycle_def)

lemma closed_remove_fields:
  "queue (removeFromQueueWithLock (snd (acks_ack w mt)) e) = remove1 e (queue w)"
  "sameLifecycle w (removeFromQueueWithLock (snd (acks_ack w mt)) e)"
  by (simp_all add: removeFromQueueWithLock_def close_def Close_message_def mPool_Put_def DecRef_def
      Remove_def acks_ack_def Let_def sameLifecycle_def split: option.splits)

lemma scanElement_closed:
  assumes "isClosed w"
  shows "scanElement w e nowNanos fullScan sm
         = Inr (Continue, removeFromQueueWithLock (snd (acks_ack w (Metadata (heap w e)))) e,
                incr idx_messageClosed (incr idx_processedClosed sm))"
  using assms by (simp add: scanElement_def Let_def)

lemma Front_drop_Cons:
  assumes "it < bs"
  shows "(if es = [] \<or> bs \<le> it + 1 then Front es else Front (drop (nat (bs - (it + 1))) es))
         = Front (drop (nat (bs - it)) (e # es))"
proof -
  have n: "nat (bs - it) = Suc (nat (bs - (it + 1)))" using assms by simp
  show ?thesis
  proof (cases "es = [] \<or> bs \<le> it + 1")
    case True
    then show ?thesis
    proof
      assume "es = []"
      then show ?thesis by (simp add: n)
    next
      assume "bs \<le> it + 1"
      then have "nat (bs - (it + 1)) = 0" by simp
      with n show ?thesis using True by simp
    qed
  next
    case False
    then show ?thesis by (simp add: n)
  qed
qed

lemma scanLoop_closed:
  assumes "isClosed w" "queue w = es"
  shows "\<exists>w' sm'. scanLoop nowNanos bs fullScan es it nx w sm
            = Inr (if es = [] \<or> bs \<le> it then nx else Front (drop (nat (bs - it)) es), w', sm') \<and>
           queue w' = drop (nat (bs - it)) es \<and> sameLifecycle w w'"
  using assms
proof (induction es arbitrary: it nx w sm)
  case Nil
  then show ?case by (simp add: sameLifecycle_refl)
next
  case (Cons e es)
  show ?case
  proof (cases "bs \<le> it")
    case True
    then show ?thesis using Cons.prems by (simp add: sameLifecycle_refl)
  next
    case False
    then have lt: "it < bs" by simp
    let ?w1 = "removeFromQueueWithLock (snd (acks_ack w (Metadata (heap w e)))) e"
    let ?sm1 = "incr idx_messageClosed (incr idx_processedClosed sm)"
    have q1: "queue ?w1 = es" using Cons.prems(2) by (simp add: closed_remove_fields(1))
    have l1: "sameLifecycle w ?w1" by (rule closed_remove_fields(2))
    then have c1: "isClosed ?w1" using Cons.prems(1) by (simp add: sameLifecycle_def)
    from Cons.IH [OF c1 q1, of "it + 1" "Front es" ?sm1]
    obtain w' sm' where
      r: "scanLoop nowNanos bs fullScan es (it + 1) (Front es) ?w1 ?sm1
            = Inr (if es = [] \<or> bs \<le> it + 1 then Front es else Front (drop (nat (bs - (it + 1))) es), w', sm')"
      and q': "queue w' = drop (nat (bs - (it + 1))) es"
      and l': "sameLifecycle ?w1 w'"
      by blast
    have n: "nat (bs - it) = Suc (nat (bs - (it + 1)))" using lt by simp
    have "scanLoop nowNanos bs fullScan (e # es) it nx w sm
            = Inr (Front (drop (nat (bs - it)) (e # es)), w', sm')"
      using lt r scanElement_closed [OF Cons.prems(1), of e nowNanos fullScan sm]
        Front_drop_Cons [OF lt, of es e]
      by simp
    moreover have "queue w' = drop (nat (bs - it)) (e # es)"
      using q' n by simp
    moreover have "sameLifecycle w w'"
      by (rule sameLifecycle_trans [OF l1 l'])
    ultimately show ?thesis using False by auto
  qed
qed

lemma scanBatchWithLock_closed:
  assumes "isClosed w" "1 \<le> batchSize"
  shows "\<exists>msgs w' sm'. scanBatchWithLock w (Front (queue w)) nowNanos batchSize fullScan sm
            = Inr (Front (queue w'), msgs, w', sm') \<and>
           queue w' = drop (nat batchSize) (queue w) \<and> sameLifecycle w w'"
proof (cases "queue w")
  case Nil
  then show ?thesis
    by (simp add: scanBatchWithLock_def Front_def Let_def sameLifecycle_def)
next
  case (Cons a q)
  let ?w0 = "w\<lparr>msgsToWrite := []\<rparr>"
  have c0: "isClosed ?w0" using assms(1) by simp
  have q0: "queue ?w0 = a # q" using Cons by simp
  from scanLoop_closed [OF c0 q0, of nowNanos batchSize fullScan 0 None sm]
  obtain w' sm' where
    r: "scanLoop nowNanos batchSize fullScan (a # q) 0 None ?w0 sm
          = Inr (Front (drop (nat batchSize) (a # q)), w', sm')"
    and q': "queue w' = drop (nat batchSize) (a # q)"
    and l': "sameLifecycle ?w0 w'"
    using assms(2) by auto
  have "scanBatchWithLock w (Front (queue w)) nowNanos batchSize fullScan sm
          = Inr (Front (queue w'), msgsToWrite w', w', sm')"
    using r q' Cons by (simp add: scanBatchWithLock_def Front_def Let_def)
  moreover have "sameLifecycle w w'" using l' by (simp add: sameLifecycle_def)
  ultimately show ?thesis using q' Cons by auto
qed

lemma scanBatches_closed:
  assumes "isClosed w" "1 \<le> MessageQueueScanBatchSize (opts w)" "length (queue w) < bound"
  shows "\<exists>w' sm'. scanBatches bound wr clock True k (Front (queue w)) beforeBatchNanos skipWrites w sm
            = Some (Inr (w', sm')) \<and> queue w' = [] \<and> sameLifecycle w w'"
  using assms
proof (induction bound arbitrary: k beforeBatchNanos skipWrites w sm)
  case 0
  then show ?case by simp
next
  case (Suc bound)
  show ?case
  proof (cases "queue w")
    case Nil
    then show ?thesis by (simp add: Front_def sameLifecycle_refl)
  next
    case (Cons a q)
    let ?bs = "MessageQueueScanBatchSize (opts w)"
    from scanBatchWithLock_closed [OF Suc.prems(1) Suc.prems(2), of beforeBatchNanos True sm]
    obtain msgs w1 sm1 where
      b: "scanBatchWithLock w (Front (queue w)) beforeBatchNanos ?bs True sm
            = Inr (Front (queue w1), msgs, w1, sm1)"
      and q1: "queue w1 = drop (nat ?bs) (queue w)"
      and l1: "sameLifecycle w w1"
      by blast
    have c1: "isClosed w1" and o1: "1 \<le> MessageQueueScanBatchSize (opts w1)"
      using l1 Suc.prems(1,2) by (simp_all add: sameLifecycle_def)
    have "0 < nat ?bs" using Suc.prems(2) by simp
    then have len: "length (queue w1) < bound"
      using q1 Cons Suc.prems(3) by simp
    have ne: "Front (queue w) \<noteq> None" using Cons by (simp add: Front_def)
    show ?thesis
    proof (cases skipWrites)
      case True
      from Suc.IH [OF c1 o1 len, of k beforeBatchNanos True sm1]
      obtain w' sm' where
        "scanBatches bound wr clock True k (Front (queue w1)) beforeBatchNanos True w1 sm1
           = Some (Inr (w', sm'))" "queue w' = []" "sameLifecycle w1 w'"
        by blast
      then show ?thesis
        using ne b True sameLifecycle_trans [OF l1] by auto
    next
      case False
      let ?skip = "writeBatch wr (consumerWriters w1) msgs \<noteq> None"
      from Suc.IH [OF c1 o1 len, of "Suc k" "clock k" ?skip sm1]
      obtain w' sm' where
        "scanBatches bound wr clock True (Suc k) (Front (queue w1)) (clock k) ?skip w1 sm1
           = Some (Inr (w', sm'))" "queue w' = []" "sameLifecycle w1 w'"
        by blast
      then show ?thesis
        using ne b False sameLifecycle_trans [OF l1] by auto
    qed
  qed
qed

lemma workerScan_closed:
  assumes "isClosed w" "1 \<le> MessageQueueScanBatchSize (opts w)"
  shows "\<exists>w'. workerScan wr beforeScan clock afterScan w = Some w' \<and> queue w' = [] \<and> sameLifecycle w w'"
proof -
  let ?w1 = "w\<lparr>lastNewWrite := None\<rparr>"
  have c1: "isClosed ?w1" and o1: "1 \<le> MessageQueueScanBatchSize (opts ?w1)"
    and len: "length (queue ?w1) < Suc (length (queue w))"
    using assms by simp_all
  from scanBatches_closed [OF c1 o1 len, of wr clock 0 beforeScan False noMetrics]
  obtain w2 sm2 where
    s: "scanBatches (Suc (length (queue w))) wr clock True 0 (Front (queue w)) beforeScan False ?w1 noMetrics
          = Some (Inr (w2, sm2))"
    and q2: "queue w2 = []" and l2: "sameLifecycle ?w1 w2"
    by auto
  let ?w3 = "w2\<lparr>nextFullScan := Some (afterScan + MessageQueueFullScanInterval (opts w2))\<rparr>"
  have "scanMessageQueue w (Suc (length (queue w))) wr beforeScan clock afterScan = Some (Inr (?w3, sm2))"
    using s assms(1) by (simp add: scanMessageQueue_def Let_def del: scanBatches.simps)
  then have "workerScan wr beforeScan clock afterScan w = Some ?w3"
    by (simp add: workerScan_def)
  moreover have "queue ?w3 = []" using q2 by simp
  moreover have "sameLifecycle w ?w3" using l2 by (simp add: sameLifecycle_def)
  ultimately show ?thesis by blast
qed

lemma waitUntilAllMessageRemoved_worker:
  assumes "isClosed w" "1 \<le> MessageQueueScanBatchSize (opts w)"
  shows "\<exists>w'. waitUntilAllMessageRemoved (Suc n) (workerScan wr beforeScan clock afterScan) w = Some w' \<and>
              queue w' = [] \<and> sameLifecycle w w'"
proof (cases "isEmpty w")
  case True
  then show ?thesis by (auto simp: isEmpty_def sameLifecycle_refl)
next
  case False
  from workerScan_closed [OF assms, of wr beforeScan clock afterScan]
  obtain w' where s: "workerScan wr beforeScan clock afterScan w = Some w'"
    and q: "queue w' = []" and l: "sameLifecycle w w'"
    by blast
  have e: "isEmpty w'" using q by (simp add: isEmpty_def)
  have "waitUntilAllMessageRemoved n (workerScan wr beforeScan clock afterScan) w' = Some w'"
    using e by (cases n) simp_all
  then show ?thesis using False s q l by auto
qed

lemma Close_closed:
  "isClosed w \<Longrightarrow> Close w ticks others = Some (Inr w)"
  by (simp add: Close_def)

text \<open>
  C9. \<open>Close\<close> is idempotent. On a closed writer \<open>Close\<close> returns at once, whatever the
  rest of the process does, and leaves the state as it is: it does not wait for the
  queue and does not close the done channel again (which would panic). On a writer that
  is not closed, with its worker scanning between the polls and a batch size of at
  least 1, the first \<open>Close\<close> returns: it has set the closed flag, the queue is empty, the
  done channel is closed and the worker joined; and every later \<open>Close\<close> returns at once
  with the state unchanged.
\<close>

theorem C9_Close_idempotent:
  "(isClosed w \<longrightarrow> Close w ticks others = Some (Inr w)) \<and>
   (\<not> isClosed w \<and> \<not> doneCh w \<and> 1 \<le> MessageQueueScanBatchSize (opts w) \<longrightarrow>
      (\<exists>w'. Close w (Suc n) (workerScan wr beforeScan clock afterScan) = Some (Inr w') \<and>
            isClosed w' \<and> queue w' = [] \<and> doneCh w' \<and> wg w' = 0 \<and>
            (\<forall>ticks' others'. Close w' ticks' others' = Some (Inr w'))))"
proof (intro conjI impI)
  assume "isClosed w"
  then show "Close w ticks others = Some (Inr w)" by (rule Close_closed)
next
  assume a: "\<not> isClosed w \<and> \<not> doneCh w \<and> 1 \<le> MessageQueueScanBatchSize (opts w)"
  let ?w0 = "w\<lparr>isClosed := True\<rparr>"
  have c0: "isClosed ?w0" and o0: "1 \<le> MessageQueueScanBatchSize (opts ?w0)"
    using a by simp_all
  from waitUntilAllMessageRemoved_worker [OF c0 o0, of n wr beforeScan clock afterScan]
  obtain w1 where
    s: "waitUntilAllMessageRemoved (Suc n) (workerScan wr beforeScan clock afterScan) ?w0 = Some w1"
    and q1: "queue w1 = []" and l1: "sameLifecycle ?w0 w1"
    by blast
  have d1: "\<not> doneCh w1" and c1: "isClosed w1"
    using l1 a by (simp_all add: sameLifecycle_def)
  let ?w' = "w1\<lparr>doneCh := True, wg := 0\<rparr>"
  have r: "Close w (Suc n) (workerScan wr beforeScan clock afterScan) = Some (Inr ?w')"
    using a s d1 by (simp add: Close_def del: waitUntilAllMessageRemoved.simps)
  have c': "isClosed ?w'" using c1 by simp
  have again: "\<forall>ticks' others'. Close ?w' ticks' others' = Some (Inr ?w')"
    using Close_closed [OF c'] by blast
  show "\<exists>w'. Close w (Suc n) (workerScan wr beforeScan clock afterScan) = Some (Inr w') \<and>
            isClosed w' \<and> queue w' = [] \<and> doneCh w' \<and> wg w' = 0 \<and>
            (\<forall>ticks' others'. Close w' ticks' others' = Some (Inr w'))"
    using r c' q1 again by (intro exI [of _ ?w']) simp
qed

theorem C9_Close_idempotent_witness:
  "\<not> isClosed ackedOnce \<and> \<not> doneCh ackedOnce \<and> queue ackedOnce = [0] \<and>
   Close ackedOnce (Suc 0) (workerScan sendOk 60 exampleClock 62) = Some (Inr drainedWriter) \<and>
   isClosed drainedWriter \<and> queue drainedWriter = [] \<and> doneCh drainedWriter \<and>
   Close drainedWriter 0 nobody = Some (Inr drainedWriter)"
proof -
  have pre: "\<not> isClosed ackedOnce \<and> \<not> doneCh ackedOnce \<and> 1 \<le> MessageQueueScanBatchSize (opts ackedOnce)"
    by (simp add: ackedOnce_def writer_eval)
  have q: "queue ackedOnce = [0]"
    by (simp add: ackedOnce_def writer_eval)
  have ev: "Close ackedOnce (Suc 0) (workerScan sendOk 60 exampleClock 62) = Some (Inr drainedWriter)"
    by (simp add: drainedWriter_def workerScan_def exampleClock_def ackedOnce_def writer_eval fun_eq_iff)
  have d: "isClosed drainedWriter" "queue drainedWriter = []" "doneCh drainedWriter"
    by (simp_all add: drainedWriter_def)
  from C9_Close_idempotent [of ackedOnce 0 nobody 0 sendOk 60 exampleClock 62,
      THEN conjunct2, THEN mp, OF pre]
  obtain w' where c: "Close ackedOnce (Suc 0) (workerScan sendOk 60 exampleClock 62) = Some (Inr w')"
    and i: "\<forall>ticks' others'. Close w' ticks' others' = Some (Inr w')"
    by blast
  from c ev have "w' = drainedWriter" by simp
  with i have "Close drainedWriter 0 nobody = Some (Inr drainedWriter)" by blast
  moreover have "Close drainedWriter 0 nobody = Some (Inr drainedWriter)"
    using C9_Close_idempotent [of drainedWriter 0 nobody, THEN conjunct1] d(1) by blast
  ultimately show ?thesis using pre q ev d by simp
qed

subsection \<open>Monotonicity of the exponential scheduler\<close>

lemma NextRetryNanosFn_no_jitter:
  assumes "\<not> Jitter ro" "1 \<le> n"
  shows "NextRetryNanosFn fu rnd ro n
         = (if MaxBackoff ro <s int64_of_float64 fu (backoffFloat64 fu ro n) then MaxBackoff ro
            else int64_of_float64 fu (backoffFloat64 fu ro n))"
  using assms by (simp add: NextRetryNanosFn_def Let_def)




text \<open>
  Beyond the \<open>int64\<close> range the conversion of \<open>backoffFloat64\<close> is
  implementation-dependent and its result is returned unless it exceeds the maximum:
  with the result of amd64, 10 ms doubled 40 times gives the smallest \<open>int64\<close> after
  the maximal backoff had been reached. The amended statement keeps to the range.
\<close>

lemma backoffFloat64_doubling:
  "backoffFloat64 exactFloat64 (retryOpts10ms False) 40 = 5497558138880000000"
  "backoffFloat64 exactFloat64 (retryOpts10ms False) 41 = 10995116277760000000"
  by (simp_all add: backoffFloat64_def float64_mul_def float64_of_int_def exactFloat64_def retryOpts10ms_def)

lemma NextRetryNanosFn_overflow_amd64:
  "NextRetryNanosFn exactFloat64 (fastrandnOf 0) (retryOpts10ms False) 40 = 60000000000 \<and>
   NextRetryNanosFn exactFloat64 (fastrandnOf 0) (retryOpts10ms False) 41 = - (2 ^ 63)"
proof -
  have j: "\<not> Jitter (retryOpts10ms False)" and m: "MaxBackoff (retryOpts10ms False) = 60000000000"
    by (simp_all add: retryOpts10ms_def)
  have c: "int64_of_float64 exactFloat64 5497558138880000000 = 5497558138880000000"
    "int64_of_float64 exactFloat64 10995116277760000000 = - (2 ^ 63)"
    by (simp_all add: int64_of_float64_def exactFloat64_def)
  show ?thesis
    by (simp add: NextRetryNanosFn_no_jitter [OF j] backoffFloat64_doubling c m word_sless_alt)
qed








end
